theory Spec2Isabelle
  imports Main "HOL-Library.Multiset" "HOL-Library.Char_ord" "HOL-Library.List_Lexorder"
    "HOL-Library.Product_Lexorder"
begin

section \<open>Smart Event Manager: the scheduling engine of event-system.cpp\<close>

text \<open>
  The source file holds the program twice (the second copy only adds
  \<^verbatim>\<open>using namespace std\<close>); the two copies of every function modelled here are
  the same, token for token after the namespace prefix. The embedding follows class
  \<^verbatim>\<open>EventManager\<close>: strings are \<^typ>\<open>string\<close>, C++ \<^verbatim>\<open>int\<close> is \<^typ>\<open>int\<close>
  with the places where a 32-bit \<^verbatim>\<open>int\<close> can overflow on the program's inputs (the id
  counter, the imported ids) written out as a fault, and everything the C++ does
  beyond returning (an uncaught exception, a read outside a string, signed overflow)
  is a value of type \<open>fault\<close>.
\<close>

subsection \<open>Faults\<close>

datatype fault =
    InvalidArgument  \<comment> \<open>\<^verbatim>\<open>std::invalid_argument\<close>, thrown by \<^verbatim>\<open>std::stoi\<close>; nothing catches it\<close>
  | OutOfRange       \<comment> \<open>\<^verbatim>\<open>std::out_of_range\<close>, thrown by \<^verbatim>\<open>std::stoi\<close> and \<^verbatim>\<open>substr\<close>\<close>
  | OutOfBounds      \<comment> \<open>\<^verbatim>\<open>operator[]\<close> past the terminator: undefined behaviour\<close>
  | SignedOverflow   \<comment> \<open>overflow of a signed \<^verbatim>\<open>int\<close>: undefined behaviour\<close>

text \<open>Sequencing: the first fault ends the computation, as an exception would.\<close>

definition andThen :: "fault + 'a \<Rightarrow> ('a \<Rightarrow> fault + 'b) \<Rightarrow> fault + 'b" where
  "andThen m f = (case m of Inl e \<Rightarrow> Inl e | Inr x \<Rightarrow> f x)"

definition INT_MAX :: int where
  "INT_MAX = 2147483647"

definition INT_MIN :: int where
  "INT_MIN = - 2147483648"

subsection \<open>Characters and strings of the C++ library\<close>

text \<open>
  \<^verbatim>\<open>std::isdigit\<close>, \<^verbatim>\<open>std::isspace\<close> and \<^verbatim>\<open>std::tolower\<close> in the "C" locale (the
  program never sets another), on the byte value of the character.
\<close>

definition isdigit :: "char \<Rightarrow> bool" where
  "isdigit c = (48 \<le> (of_char c :: nat) \<and> (of_char c :: nat) \<le> 57)"

definition isspace :: "char \<Rightarrow> bool" where
  "isspace c = ((of_char c :: nat) = 32 \<or> (9 \<le> (of_char c :: nat) \<and> (of_char c :: nat) \<le> 13))"

definition tolower :: "char \<Rightarrow> char" where
  "tolower c = (if 65 \<le> (of_char c :: nat) \<and> (of_char c :: nat) \<le> 90
                then char_of ((of_char c :: nat) + 32) else c)"

text \<open>
  A \<^verbatim>\<open>char\<close> promoted to \<^verbatim>\<open>int\<close>, as in \<^verbatim>\<open>t[0]-'0'\<close>. Plain \<^verbatim>\<open>char\<close> is taken as
  signed (x86-64); on the digits, the only characters the claims reach, a signed and
  an unsigned \<^verbatim>\<open>char\<close> agree.
\<close>

definition char_int :: "char \<Rightarrow> int" where
  "char_int c = (if (of_char c :: nat) < 128 then int (of_char c) else int (of_char c) - 256)"

text \<open>
  \<^verbatim>\<open>s[i]\<close> on a \<^verbatim>\<open>const std::string&\<close>: the character, the terminator \<^verbatim>\<open>'\0'\<close> at
  \<^verbatim>\<open>i == s.size()\<close>, undefined behaviour beyond.
\<close>

definition at :: "string \<Rightarrow> nat \<Rightarrow> fault + char" where
  "at s i = (if i < length s then Inr (s ! i)
             else if i = length s then Inr (char_of (0::nat))
             else Inl OutOfBounds)"

text \<open>\<^verbatim>\<open>s.substr(pos, n)\<close> throws \<^verbatim>\<open>std::out_of_range\<close> when \<^verbatim>\<open>pos > s.size()\<close>.\<close>

definition substr :: "string \<Rightarrow> nat \<Rightarrow> nat \<Rightarrow> fault + string" where
  "substr s pos n = (if pos > length s then Inl OutOfRange else Inr (take n (drop pos s)))"

text \<open>The value of a run of decimal digits, most significant first.\<close>

definition digits_value :: "string \<Rightarrow> int" where
  "digits_value ds = foldl (\<lambda>acc c. 10 * acc + (char_int c - 48)) 0 ds"

text \<open>
  \<^verbatim>\<open>std::stoi(s)\<close> (base 10, through \<^verbatim>\<open>strtol\<close>): leading white space is skipped, one
  sign is read, then the longest run of digits; what follows the digits is ignored. No
  digit: \<^verbatim>\<open>std::invalid_argument\<close>. A value outside \<^verbatim>\<open>int\<close>: \<^verbatim>\<open>std::out_of_range\<close>.
\<close>

definition stoi :: "string \<Rightarrow> fault + int" where
  "stoi s =
     (let s1 = dropWhile isspace s;
          neg = (s1 \<noteq> [] \<and> hd s1 = CHR ''-'');
          s2 = (if s1 \<noteq> [] \<and> (hd s1 = CHR ''-'' \<or> hd s1 = CHR ''+'') then tl s1 else s1);
          ds = takeWhile isdigit s2;
          v = (if neg then - digits_value ds else digits_value ds)
      in if ds = [] then Inl InvalidArgument
         else if v < INT_MIN \<or> v > INT_MAX then Inl OutOfRange
         else Inr v)"

text \<open>
  \<^verbatim>\<open>os << n\<close> for an \<^verbatim>\<open>int\<close>, and the padding of \<^verbatim>\<open>std::setw(w) << std::setfill(c)\<close>
  (right-adjusted, the default).
\<close>

fun decimal :: "nat \<Rightarrow> string" where
  "decimal n = (if n < 10 then [char_of (48 + n)]
                else decimal (n div 10) @ [char_of (48 + n mod 10)])"

declare decimal.simps [simp del]

definition ostream_int :: "int \<Rightarrow> string" where
  "ostream_int i = (if i < 0 then CHR ''-'' # decimal (nat (- i)) else decimal (nat i))"

definition setw_setfill :: "nat \<Rightarrow> char \<Rightarrow> string \<Rightarrow> string" where
  "setw_setfill w c s = replicate (w - length s) c @ s"

text \<open>\<^verbatim>\<open>toLower\<close>, \<^verbatim>\<open>iequals\<close> and \<^verbatim>\<open>icontains\<close> (lines 41 to 50).\<close>

definition toLower :: "string \<Rightarrow> string" where
  "toLower s = map tolower s"

definition iequals :: "string \<Rightarrow> string \<Rightarrow> bool" where
  "iequals a b = (toLower a = toLower b)"

text \<open>\<^verbatim>\<open>t.find(k) != npos\<close>: \<open>k\<close> occurs in \<open>t\<close> as a contiguous run.\<close>

fun string_find :: "string \<Rightarrow> string \<Rightarrow> bool" where
  "string_find [] k = (k = [])"
| "string_find (c # cs) k = (take (length k) (c # cs) = k \<or> string_find cs k)"

definition icontains :: "string \<Rightarrow> string \<Rightarrow> bool" where
  "icontains text_s key = string_find (toLower text_s) (toLower key)"

subsection \<open>Validation (lines 59 to 100)\<close>

definition isLeap :: "int \<Rightarrow> bool" where
  "isLeap y = ((y mod 4 = 0 \<and> y mod 100 \<noteq> 0) \<or> y mod 400 = 0)"

definition mdays :: "int list" where
  "mdays = [0, 31, 28, 31, 30, 31, 30, 31, 31, 30, 31, 30, 31]"

text \<open>
  \<^verbatim>\<open>isValidDate\<close>: the reads \<^verbatim>\<open>d[2]\<close>, \<^verbatim>\<open>d[5]\<close> and \<^verbatim>\<open>d[i]\<close> stand behind the test
  \<^verbatim>\<open>d.size()!=10\<close>, so they are in range; the three \<^verbatim>\<open>std::stoi\<close> calls can throw
  as far as their type goes, and the model keeps that.
\<close>

definition isValidDate :: "string \<Rightarrow> fault + bool" where
  "isValidDate d =
     (if length d \<noteq> 10 \<or> d ! 2 \<noteq> CHR ''-'' \<or> d ! 5 \<noteq> CHR ''-'' then Inr False
      else if \<not> list_all (\<lambda>i. i = 2 \<or> i = 5 \<or> isdigit (d ! i)) [0..<10] then Inr False
      else
        andThen (andThen (substr d 0 2) stoi) (\<lambda>day.
        andThen (andThen (substr d 3 2) stoi) (\<lambda>mon.
        andThen (andThen (substr d 6 4) stoi) (\<lambda>yr.
          if yr < 1900 \<or> yr > 3000 then Inr False
          else if mon < 1 \<or> mon > 12 then Inr False
          else
            let md = (if mon = 2 \<and> isLeap yr then mdays[2 := 29] else mdays)
            in Inr (day \<ge> 1 \<and> day \<le> md ! nat mon)))))"

definition isValidTime :: "string \<Rightarrow> bool" where
  "isValidTime t =
     (if length t \<noteq> 5 \<or> t ! 2 \<noteq> CHR '':'' then False
      else if \<not> isdigit (t ! 0) \<or> \<not> isdigit (t ! 1) \<or> \<not> isdigit (t ! 3) \<or> \<not> isdigit (t ! 4)
        then False
      else
        let h = (char_int (t ! 0) - 48) * 10 + (char_int (t ! 1) - 48);
            m = (char_int (t ! 3) - 48) * 10 + (char_int (t ! 4) - 48)
        in if h < 0 \<or> h > 23 then False
           else if m < 0 \<or> m > 59 then False
           else True)"

text \<open>\<^verbatim>\<open>toMinutes\<close> reads \<^verbatim>\<open>t[0]\<close>, \<^verbatim>\<open>t[1]\<close>, \<^verbatim>\<open>t[3]\<close>, \<^verbatim>\<open>t[4]\<close> with no test of its own.\<close>

definition toMinutes :: "string \<Rightarrow> fault + int" where
  "toMinutes t =
     andThen (at t 0) (\<lambda>c0.
     andThen (at t 1) (\<lambda>c1.
     andThen (at t 3) (\<lambda>c3.
     andThen (at t 4) (\<lambda>c4.
       Inr ((char_int c0 - 48) * 600 + (char_int c1 - 48) * 60
            + (char_int c3 - 48) * 10 + (char_int c4 - 48))))))"

text \<open>
  \<^verbatim>\<open>fromMinutes\<close>: after the clamp the value is not negative, so the truncating
  \<^verbatim>\<open>%\<close> and \<^verbatim>\<open>/\<close> of C++ are \<open>mod\<close> and \<open>div\<close>.
\<close>

definition fromMinutes :: "int \<Rightarrow> string" where
  "fromMinutes minutes =
     (let m0 = (if minutes < 0 then 0 else minutes);
          m1 = m0 mod (24 * 60);
          h = m1 div 60;
          m = m1 mod 60
      in setw_setfill 2 CHR ''0'' (ostream_int h) @ '':'' @ setw_setfill 2 CHR ''0'' (ostream_int m))"


subsection \<open>The store (lines 32 to 55)\<close>

text \<open>The field \<^verbatim>\<open>id\<close> is \<open>id_ev\<close> here: \<open>id\<close> is the identity function of HOL.\<close>

record Event =
  id_ev :: int
  name :: string
  date :: string
  time :: string
  type :: string
  location :: string

record EventManager =
  events :: "Event list"
  nextId :: int
  attendeeEmails :: "string list"

text \<open>The manager as \<^verbatim>\<open>main\<close> constructs it: no event, \<^verbatim>\<open>nextId = 1\<close>.\<close>

definition initial :: EventManager where
  "initial = \<lparr>events = [], nextId = 1, attendeeEmails = []\<rparr>"

text \<open>A value-initialised \<^verbatim>\<open>Event e;\<close> (\<^verbatim>\<open>int id{}\<close> is 0, the strings are empty).\<close>

definition default_event :: Event where
  "default_event = \<lparr>id_ev = 0, name = [], date = [], time = [], type = [], location = []\<rparr>"

subsection \<open>Conflicts and duplicates (lines 95 to 100, 142 to 145)\<close>

definition conflicts :: "Event \<Rightarrow> Event \<Rightarrow> fault + bool" where
  "conflicts a b =
     (if date a \<noteq> date b then Inr False
      else
        andThen (toMinutes (time a)) (\<lambda>s1.
        andThen (toMinutes (time b)) (\<lambda>s2.
          let e1 = s1 + 60; e2 = s2 + 60 in Inr (s1 < e2 \<and> s2 < e1))))"

definition isDuplicate :: "string \<Rightarrow> string \<Rightarrow> string \<Rightarrow> EventManager \<Rightarrow> bool" where
  "isDuplicate nm dt tm s =
     list_ex (\<lambda>e. iequals (name e) nm \<and> date e = dt \<and> time e = tm) (events s)"

text \<open>
  The loops of lines 152 and 170,
  \<^verbatim>\<open>for (const auto& ex: events) if (guard(ex) && conflicts(e,ex)) { ... return false; }\<close>:
  the first event that passes the guard and conflicts with \<open>e\<close>. \<^verbatim>\<open>addEvent\<close> has no
  guard, \<^verbatim>\<open>editEventById\<close> has \<^verbatim>\<open>ex.id!=e.id\<close>; \<^verbatim>\<open>&&\<close> does not call \<^verbatim>\<open>conflicts\<close>
  when the guard fails.
\<close>

fun conflict_scan :: "(Event \<Rightarrow> bool) \<Rightarrow> Event \<Rightarrow> Event list \<Rightarrow> fault + Event option" where
  "conflict_scan guard e [] = Inr None"
| "conflict_scan guard e (ex # rest) =
     (if guard ex
      then andThen (conflicts e ex) (\<lambda>c. if c then Inr (Some ex) else conflict_scan guard e rest)
      else conflict_scan guard e rest)"

subsection \<open>Sorting\<close>

text \<open>
  \<^verbatim>\<open>std::sort(first, last, comp)\<close> is library code: for a comparison that is a strict weak
  order it leaves a permutation of the range in which no element is \<open>comp\<close>-less than
  one before it. It stands here as an insertion sort that inserts behind equal
  elements; the comparison of \<^verbatim>\<open>listAll\<close> can fault, so the sort runs in \<open>fault + _\<close>.
\<close>

fun insert_sorted :: "('a \<Rightarrow> 'a \<Rightarrow> fault + bool) \<Rightarrow> 'a \<Rightarrow> 'a list \<Rightarrow> fault + 'a list" where
  "insert_sorted lt x [] = Inr [x]"
| "insert_sorted lt x (y # ys) =
     andThen (lt x y) (\<lambda>b.
       if b then Inr (x # y # ys)
       else andThen (insert_sorted lt x ys) (\<lambda>r. Inr (y # r)))"

fun std_sort :: "('a \<Rightarrow> 'a \<Rightarrow> fault + bool) \<Rightarrow> 'a list \<Rightarrow> fault + 'a list" where
  "std_sort lt [] = Inr []"
| "std_sort lt (x # xs) = andThen (std_sort lt xs) (insert_sorted lt x)"

subsection \<open>Slot suggestion (lines 250 to 257)\<close>

text \<open>The occupied intervals \<^verbatim>\<open>{s, s+60}\<close> of the events on the date, in store order.\<close>

fun occupied :: "string \<Rightarrow> Event list \<Rightarrow> fault + (int \<times> int) list" where
  "occupied dt [] = Inr []"
| "occupied dt (e # es) =
     (if date e = dt
      then andThen (toMinutes (time e)) (\<lambda>s.
           andThen (occupied dt es) (\<lambda>r. Inr ((s, s + 60) # r)))
      else occupied dt es)"

text \<open>
  The scan \<^verbatim>\<open>for (int t=start; t+duration<=end && shown<5; t+=30)\<close> with
  \<^verbatim>\<open>end = 20*60\<close>; the result is the list of printed pairs
  \<^verbatim>\<open>fromMinutes(t) to fromMinutes(t+duration)\<close>. The program only ever passes the
  default duration 60, for which no \<^verbatim>\<open>int\<close> overflows.
\<close>

function slot_scan :: "int \<Rightarrow> (int \<times> int) list \<Rightarrow> int \<Rightarrow> nat \<Rightarrow> (string \<times> string) list" where
  "slot_scan duration occ t shown =
     (if t + duration \<le> 20 * 60 \<and> shown < 5
      then
        (if list_ex (\<lambda>iv. \<not> (t + duration \<le> fst iv \<or> t \<ge> snd iv)) occ
         then slot_scan duration occ (t + 30) shown
         else (fromMinutes t, fromMinutes (t + duration)) # slot_scan duration occ (t + 30) (shown + 1))
      else [])"
  by pat_completeness auto
termination
  by (relation "measure (\<lambda>(duration, occ, t, shown). nat (20 * 60 - duration - t + 30))") auto

declare slot_scan.simps [simp del]

definition suggestSlots :: "string \<Rightarrow> int \<Rightarrow> EventManager \<Rightarrow> fault + (string \<times> string) list" where
  "suggestSlots dt duration s =
     andThen (occupied dt (events s)) (\<lambda>occ.
     andThen (std_sort (\<lambda>a b. Inr (a < b)) occ) (\<lambda>occ'.
       Inr (slot_scan duration occ' (8 * 60) 0)))"

subsection \<open>Adding, editing, deleting (lines 147 to 186)\<close>

text \<open>
  What an operation reports: the C++ returns \<^verbatim>\<open>bool\<close> and prints one message per
  return statement; the status names the return statement taken, with what the
  message shows.
\<close>

datatype add_status =
    InvalidDate
  | InvalidTime
  | DuplicateExists
  | Conflict Event "(string \<times> string) list option"
      \<comment> \<open>the first conflicting event; the suggested slots when \<^verbatim>\<open>verbose\<close>\<close>
  | Added int

fun add_ok :: "add_status \<Rightarrow> bool" where
  "add_ok (Added n) = True"
| "add_ok st = False"

text \<open>
  \<^verbatim>\<open>Event e{nextId++, ...}\<close> stands before the conflict loop: the counter moves on
  every call that gets past the duplicate test.
\<close>

definition addEvent ::
  "string \<Rightarrow> string \<Rightarrow> string \<Rightarrow> string \<Rightarrow> string \<Rightarrow> bool \<Rightarrow> EventManager
     \<Rightarrow> fault + (add_status \<times> EventManager)" where
  "addEvent nm dt tm ty loc verbose s =
     andThen (isValidDate dt) (\<lambda>vd.
       if \<not> vd then Inr (InvalidDate, s)
       else if \<not> isValidTime tm then Inr (InvalidTime, s)
       else if isDuplicate nm dt tm s then Inr (DuplicateExists, s)
       else if nextId s = INT_MAX then Inl SignedOverflow
       else
         let e = \<lparr>id_ev = nextId s, name = nm, date = dt, time = tm, type = ty, location = loc\<rparr>;
             s1 = s\<lparr>nextId := nextId s + 1\<rparr>
         in andThen (conflict_scan (\<lambda>ex. True) e (events s1)) (\<lambda>c.
              case c of
                Some ex \<Rightarrow>
                  if verbose
                  then andThen (suggestSlots dt 60 s1) (\<lambda>sl. Inr (Conflict ex (Some sl), s1))
                  else Inr (Conflict ex None, s1)
              | None \<Rightarrow> Inr (Added (id_ev e), s1\<lparr>events := events s1 @ [e]\<rparr>)))"

text \<open>\<^verbatim>\<open>std::find_if\<close>: the index of the first element that satisfies the predicate.\<close>

fun find_if :: "('a \<Rightarrow> bool) \<Rightarrow> 'a list \<Rightarrow> nat option" where
  "find_if p [] = None"
| "find_if p (x # xs) = (if p x then Some 0 else map_option Suc (find_if p xs))"

datatype edit_status =
    NotFound
  | InvalidDateTime
  | DuplicateAfterEdit
  | ConflictAfterEdit int "(string \<times> string) list"
      \<comment> \<open>the id of the first conflicting event, and the suggested slots\<close>
  | Updated

text \<open>
  \<^verbatim>\<open>editEventById\<close> reads five lines; they are the arguments \<open>in_name\<close> to \<open>in_location\<close>.
  Lines 163 to 167, \<^verbatim>\<open>if(!in.empty()) e.name=in;\<close> and so on: a line that is not empty
  replaces its field, the id stays.
\<close>

definition merged :: "Event \<Rightarrow> string \<Rightarrow> string \<Rightarrow> string \<Rightarrow> string \<Rightarrow> string \<Rightarrow> Event" where
  "merged backup in_name in_date in_time in_type in_location =
     \<lparr>id_ev = id_ev backup,
      name = (if in_name \<noteq> [] then in_name else name backup),
      date = (if in_date \<noteq> [] then in_date else date backup),
      time = (if in_time \<noteq> [] then in_time else time backup),
      type = (if in_type \<noteq> [] then in_type else type backup),
      location = (if in_location \<noteq> [] then in_location else location backup)\<rparr>"

text \<open>
  The event is changed in place (\<^verbatim>\<open>Event &e=*it\<close>), checked inside the vector, and
  \<^verbatim>\<open>e=backup\<close> puts the old value back; the slots of the conflict message are computed
  before that, on the vector with the edit in it.
\<close>

definition editEventById ::
  "int \<Rightarrow> string \<Rightarrow> string \<Rightarrow> string \<Rightarrow> string \<Rightarrow> string \<Rightarrow> EventManager
     \<Rightarrow> fault + (edit_status \<times> EventManager)" where
  "editEventById i in_name in_date in_time in_type in_location s =
     (case find_if (\<lambda>e. id_ev e = i) (events s) of
        None \<Rightarrow> Inr (NotFound, s)
      | Some k \<Rightarrow>
          let backup = events s ! k;
              e = merged backup in_name in_date in_time in_type in_location;
              s1 = s\<lparr>events := (events s)[k := e]\<rparr>;
              reverted = s1\<lparr>events := (events s1)[k := backup]\<rparr>
          in andThen (isValidDate (date e)) (\<lambda>vd.
               if \<not> vd \<or> \<not> isValidTime (time e) then Inr (InvalidDateTime, reverted)
               else if list_ex (\<lambda>ex. id_ev ex \<noteq> id_ev e \<and> iequals (name ex) (name e)
                                    \<and> date ex = date e \<and> time ex = time e) (events s1)
                 then Inr (DuplicateAfterEdit, reverted)
               else
                 andThen (conflict_scan (\<lambda>ex. id_ev ex \<noteq> id_ev e) e (events s1)) (\<lambda>c.
                   case c of
                     Some ex \<Rightarrow>
                       andThen (suggestSlots (date e) 60 s1) (\<lambda>sl.
                         Inr (ConflictAfterEdit (id_ev ex) sl, reverted))
                   | None \<Rightarrow> Inr (Updated, s1))))"

definition deleteById :: "int \<Rightarrow> EventManager \<Rightarrow> bool \<times> EventManager" where
  "deleteById i s =
     (let es = filter (\<lambda>e. \<not> id_ev e = i) (events s)
      in (length es \<noteq> length (events s), s\<lparr>events := es\<rparr>))"

definition deleteByName :: "string \<Rightarrow> EventManager \<Rightarrow> bool \<times> EventManager" where
  "deleteByName nm s =
     (let es = filter (\<lambda>e. \<not> iequals (name e) nm) (events s)
      in (length es \<noteq> length (events s), s\<lparr>events := es\<rparr>))"

subsection \<open>Listing (lines 197 to 203)\<close>

definition ymd :: "string \<Rightarrow> fault + string" where
  "ymd d =
     andThen (substr d 6 4) (\<lambda>y.
     andThen (substr d 3 2) (\<lambda>m.
     andThen (substr d 0 2) (\<lambda>dd. Inr (y @ m @ dd))))"

definition listAll_comp :: "Event \<Rightarrow> Event \<Rightarrow> fault + bool" where
  "listAll_comp a b =
     (if date a = date b
      then andThen (toMinutes (time a)) (\<lambda>x. andThen (toMinutes (time b)) (\<lambda>y. Inr (x < y)))
      else andThen (ymd (date a)) (\<lambda>x. andThen (ymd (date b)) (\<lambda>y. Inr (x < y))))"

text \<open>The rows \<^verbatim>\<open>listAll\<close> prints, in order; none when it prints \<^verbatim>\<open>No events.\<close>\<close>

definition listAll :: "EventManager \<Rightarrow> fault + Event list" where
  "listAll s = (if events s = [] then Inr [] else std_sort listAll_comp (events s))"

subsection \<open>Snapshot import (lines 268 to 292)\<close>

text \<open>
  \<^verbatim>\<open>while (std::getline(ss,tok,','))\<close>: the fields between commas; a read that meets
  the end of the line with nothing extracted fails, so no empty last field is seen.
\<close>

function getline_tokens :: "string \<Rightarrow> string list" where
  "getline_tokens [] = []"
| "getline_tokens (c # cs) =
     takeWhile (\<lambda>x. x \<noteq> CHR '','') (c # cs)
       # (case dropWhile (\<lambda>x. x \<noteq> CHR '','') (c # cs) of
            [] \<Rightarrow> []
          | comma # rest \<Rightarrow> getline_tokens rest)"
  by pat_completeness auto
termination
proof (relation "measure length")
  show "wf (measure length)" by simp
next
  fix c :: char and cs comma rest
  assume "dropWhile (\<lambda>x. x \<noteq> CHR '','') (c # cs) = comma # rest"
  then have "length (comma # rest) \<le> length (c # cs)"
    by (metis length_dropWhile_le)
  then show "(rest, c # cs) \<in> measure length" by simp
qed

text \<open>The \<^verbatim>\<open>switch(col)\<close> over the fields of one line.\<close>

fun assign_cols :: "nat \<Rightarrow> string list \<Rightarrow> Event \<Rightarrow> fault + Event" where
  "assign_cols col [] e = Inr e"
| "assign_cols col (tok # toks) e =
     andThen
       (if col = 0 then (if tok \<noteq> [] then andThen (stoi tok) (\<lambda>v. Inr (e\<lparr>id_ev := v\<rparr>)) else Inr e)
        else if col = 1 then Inr (e\<lparr>name := tok\<rparr>)
        else if col = 2 then Inr (e\<lparr>date := tok\<rparr>)
        else if col = 3 then Inr (e\<lparr>time := tok\<rparr>)
        else if col = 4 then Inr (e\<lparr>type := tok\<rparr>)
        else if col = 5 then Inr (e\<lparr>location := tok\<rparr>)
        else Inr e)
       (assign_cols (col + 1) toks)"

text \<open>
  The reading loop over the pasted lines: it ends at the first empty line (or at the
  end of the input, where \<^verbatim>\<open>std::getline\<close> leaves the line empty), and gives
  \<^verbatim>\<open>temp\<close> and \<^verbatim>\<open>maxId\<close>.
\<close>

fun import_loop :: "string list \<Rightarrow> bool \<Rightarrow> Event list \<Rightarrow> int \<Rightarrow> fault + (Event list \<times> int)" where
  "import_loop [] first temp maxId = Inr (temp, maxId)"
| "import_loop (line # rest) first temp maxId =
     (if line = [] then Inr (temp, maxId)
      else if \<not> string_find line '','' then import_loop rest first temp maxId
      else if first \<and> string_find (toLower line) ''id,name,date,time,type,location''
        then import_loop rest False temp maxId
      else
        andThen (assign_cols 0 (getline_tokens line) default_event) (\<lambda>e.
          if id_ev e = 0 \<or> name e = [] then import_loop rest False temp maxId
          else andThen (isValidDate (date e)) (\<lambda>vd.
            if \<not> vd \<or> \<not> isValidTime (time e) then import_loop rest False temp maxId
            else import_loop rest False (temp @ [e]) (max maxId (id_ev e)))))"

datatype import_status =
    NothingImported
  | Imported nat int  \<comment> \<open>the number of events and the next id, as printed\<close>

definition importSnapshotCSV ::
  "string list \<Rightarrow> EventManager \<Rightarrow> fault + (import_status \<times> EventManager)" where
  "importSnapshotCSV lines s =
     andThen (import_loop lines True [] 0) (\<lambda>r.
       let temp = fst r; maxId = snd r
       in if temp = [] then Inr (NothingImported, s)
          else if maxId = INT_MAX then Inl SignedOverflow
          else Inr (Imported (length temp) (maxId + 1), s\<lparr>events := temp, nextId := maxId + 1\<rparr>))"

subsection \<open>The id counter at INT_MAX\<close>

text \<open>
  \<^verbatim>\<open>nextId++\<close> (line 151) and \<^verbatim>\<open>maxId+1\<close> (line 291) at \<^verbatim>\<open>INT_MAX\<close> overflow a signed
  \<^verbatim>\<open>int\<close>. That is undefined behaviour, the fault \<open>SignedOverflow\<close> of \<open>addEvent\<close> and
  \<open>importSnapshotCSV\<close> above. On the usual two's-complement targets the increment wraps
  to \<^verbatim>\<open>INT_MIN\<close> and the program goes on with that counter. The two operations as they
  run there: the same lines, with the wrapping increment in place of the fault.
\<close>

definition wrapping_succ :: "int \<Rightarrow> int" where
  "wrapping_succ n = (if n = INT_MAX then INT_MIN else n + 1)"

definition addEvent_wrapping ::
  "string \<Rightarrow> string \<Rightarrow> string \<Rightarrow> string \<Rightarrow> string \<Rightarrow> bool \<Rightarrow> EventManager
     \<Rightarrow> fault + (add_status \<times> EventManager)" where
  "addEvent_wrapping nm dt tm ty loc verbose s =
     andThen (isValidDate dt) (\<lambda>vd.
       if \<not> vd then Inr (InvalidDate, s)
       else if \<not> isValidTime tm then Inr (InvalidTime, s)
       else if isDuplicate nm dt tm s then Inr (DuplicateExists, s)
       else
         let e = \<lparr>id_ev = nextId s, name = nm, date = dt, time = tm, type = ty, location = loc\<rparr>;
             s1 = s\<lparr>nextId := wrapping_succ (nextId s)\<rparr>
         in andThen (conflict_scan (\<lambda>ex. True) e (events s1)) (\<lambda>c.
              case c of
                Some ex \<Rightarrow>
                  if verbose
                  then andThen (suggestSlots dt 60 s1) (\<lambda>sl. Inr (Conflict ex (Some sl), s1))
                  else Inr (Conflict ex None, s1)
              | None \<Rightarrow> Inr (Added (id_ev e), s1\<lparr>events := events s1 @ [e]\<rparr>)))"

definition importSnapshotCSV_wrapping ::
  "string list \<Rightarrow> EventManager \<Rightarrow> fault + (import_status \<times> EventManager)" where
  "importSnapshotCSV_wrapping lines s =
     andThen (import_loop lines True [] 0) (\<lambda>r.
       let temp = fst r; maxId = snd r
       in if temp = [] then Inr (NothingImported, s)
          else Inr (Imported (length temp) (wrapping_succ maxId),
                    s\<lparr>events := temp, nextId := wrapping_succ maxId\<rparr>))"

subsection \<open>Committed states\<close>

text \<open>
  The states the manager is in between two operations, from the initial one. \<open>G\<close> says
  which snapshots (the rows \<^verbatim>\<open>temp\<close> an import accepts) may be imported. The mode says
  what the runs are: with \<open>NoOverflow\<close>, only the runs in which no operation overflows the
  id counter (the steps are the returns of \<open>addEvent\<close> and \<open>importSnapshotCSV\<close>, which
  have none at an overflow); with \<open>Wraps\<close>, also the runs that go on with the wrapped
  counter.
\<close>

datatype overflow = NoOverflow | Wraps

inductive reachable :: "overflow \<Rightarrow> (Event list \<Rightarrow> bool) \<Rightarrow> EventManager \<Rightarrow> bool"
  for ov G where
  start: "reachable ov G initial"
| add: "reachable ov G s \<Longrightarrow> addEvent nm dt tm ty loc verbose s = Inr (st, s')
          \<Longrightarrow> reachable ov G s'"
| add_wrapping: "reachable ov G s \<Longrightarrow> ov = Wraps
          \<Longrightarrow> addEvent_wrapping nm dt tm ty loc verbose s = Inr (st, s') \<Longrightarrow> reachable ov G s'"
| edit: "reachable ov G s
          \<Longrightarrow> editEventById i in_name in_date in_time in_type in_location s = Inr (est, s')
          \<Longrightarrow> reachable ov G s'"
| delete_id: "reachable ov G s \<Longrightarrow> deleteById i s = (b, s') \<Longrightarrow> reachable ov G s'"
| delete_name: "reachable ov G s \<Longrightarrow> deleteByName nm s = (b, s') \<Longrightarrow> reachable ov G s'"
| import: "reachable ov G s \<Longrightarrow> import_loop lines True [] 0 = Inr (temp, maxId) \<Longrightarrow> G temp
          \<Longrightarrow> importSnapshotCSV lines s = Inr (ist, s') \<Longrightarrow> reachable ov G s'"
| import_wrapping: "reachable ov G s \<Longrightarrow> ov = Wraps
          \<Longrightarrow> import_loop lines True [] 0 = Inr (temp, maxId) \<Longrightarrow> G temp
          \<Longrightarrow> importSnapshotCSV_wrapping lines s = Inr (ist, s') \<Longrightarrow> reachable ov G s'"


section \<open>What the specification says, in its own words\<close>

subsection \<open>Dates and times\<close>

definition digit_of :: "char \<Rightarrow> nat" where
  "digit_of c = (of_char c :: nat) - 48"

definition decimal_value :: "string \<Rightarrow> nat" where
  "decimal_value ds = foldl (\<lambda>acc c. 10 * acc + digit_of c) 0 ds"

definition leap_year :: "nat \<Rightarrow> bool" where
  "leap_year y = (4 dvd y \<and> (\<not> 100 dvd y \<or> 400 dvd y))"

definition days_in_month :: "nat \<Rightarrow> nat \<Rightarrow> nat" where
  "days_in_month m y =
     (if m = 2 then (if leap_year y then 29 else 28)
      else if m = 4 \<or> m = 6 \<or> m = 9 \<or> m = 11 then 30
      else 31)"

text \<open>The three fields of a ten-character \<^verbatim>\<open>DD-MM-YYYY\<close> text with its two separators.\<close>

definition date_fields :: "string \<Rightarrow> (string \<times> string \<times> string) option" where
  "date_fields d =
     (case d of
        [d1, d2, s1, m1, m2, s2, y1, y2, y3, y4] \<Rightarrow>
          if s1 = CHR ''-'' \<and> s2 = CHR ''-'' then Some ([d1, d2], [m1, m2], [y1, y2, y3, y4]) else None
      | _ \<Rightarrow> None)"

definition valid_date_spec :: "string \<Rightarrow> bool" where
  "valid_date_spec d =
     (case date_fields d of
        None \<Rightarrow> False
      | Some (dd, mm, yyyy) \<Rightarrow>
          list_all isdigit dd \<and> list_all isdigit mm \<and> list_all isdigit yyyy \<and>
          (let day = decimal_value dd; month = decimal_value mm; year = decimal_value yyyy
           in 1900 \<le> year \<and> year \<le> 3000 \<and> 1 \<le> month \<and> month \<le> 12 \<and>
              1 \<le> day \<and> day \<le> days_in_month month year))"

text \<open>
  The start of an event in minutes since midnight, read from the two fields of a valid
  \<^verbatim>\<open>HH:MM\<close> text, and the overlap of two 60-minute windows \<open>[start, start + 60)\<close> on
  one date.
\<close>

definition start_minute :: "string \<Rightarrow> nat" where
  "start_minute t = 60 * decimal_value (take 2 t) + decimal_value (drop 3 t)"

definition overlapping :: "Event \<Rightarrow> Event \<Rightarrow> bool" where
  "overlapping a b =
     (date a = date b \<and> start_minute (time a) < start_minute (time b) + 60
        \<and> start_minute (time b) < start_minute (time a) + 60)"

subsection \<open>The invariants of the store\<close>

text \<open>The duplicate rule: the triple (name without case, date, time).\<close>

definition same_triple :: "Event \<Rightarrow> Event \<Rightarrow> bool" where
  "same_triple a b = (iequals (name a) (name b) \<and> date a = date b \<and> time a = time b)"

text \<open>A property of every two elements at different places of a list.\<close>

fun each_pair :: "('a \<Rightarrow> 'a \<Rightarrow> bool) \<Rightarrow> 'a list \<Rightarrow> bool" where
  "each_pair P [] = True"
| "each_pair P (x # xs) = (list_all (P x) xs \<and> each_pair P xs)"

definition no_duplicates :: "Event list \<Rightarrow> bool" where
  "no_duplicates es = each_pair (\<lambda>a b. \<not> same_triple a b) es"

definition no_conflicts :: "Event list \<Rightarrow> bool" where
  "no_conflicts es = each_pair (\<lambda>a b. \<not> overlapping a b) es"

definition all_valid :: "Event list \<Rightarrow> bool" where
  "all_valid es = list_all (\<lambda>e. valid_date_spec (date e) \<and> isValidTime (time e)) es"

definition valid_times :: "Event list \<Rightarrow> bool" where
  "valid_times es = list_all (\<lambda>e. isValidTime (time e)) es"

text \<open>Every id positive, no id twice.\<close>

definition live_ids_ok :: "Event list \<Rightarrow> bool" where
  "live_ids_ok es = (list_all (\<lambda>e. 0 < id_ev e) es \<and> distinct (map id_ev es))"

text \<open>No id twice, and every id below the counter: the next id handed out is new.\<close>

definition ids_fresh :: "EventManager \<Rightarrow> bool" where
  "ids_fresh s =
     (distinct (map id_ev (events s)) \<and> list_all (\<lambda>e. id_ev e < nextId s) (events s))"

definition ids_positive :: "EventManager \<Rightarrow> bool" where
  "ids_positive s = (1 \<le> nextId s \<and> list_all (\<lambda>e. 0 < id_ev e) (events s))"

definition schedule_ok :: "EventManager \<Rightarrow> bool" where
  "schedule_ok s = (all_valid (events s) \<and> no_duplicates (events s) \<and> no_conflicts (events s))"

text \<open>
  Which snapshots an import may bring in: any at all (the program as it is), or only
  those whose accepted rows already keep the rule in question.
\<close>

definition any_snapshot :: "Event list \<Rightarrow> bool" where
  "any_snapshot rows = True"

definition coherent_snapshot :: "Event list \<Rightarrow> bool" where
  "coherent_snapshot rows = (distinct (map id_ev rows) \<and> no_duplicates rows \<and> no_conflicts rows)"

subsection \<open>Editing\<close>

text \<open>The three checks after the merge, as the statuses that report their failure.\<close>

fun edit_check_failed :: "edit_status \<Rightarrow> bool" where
  "edit_check_failed InvalidDateTime = True"
| "edit_check_failed DuplicateAfterEdit = True"
| "edit_check_failed (ConflictAfterEdit n sl) = True"
| "edit_check_failed st = False"

subsection \<open>The order of the listing\<close>

text \<open>The date rearranged to year, month, day, and the order \<^verbatim>\<open>listAll\<close> is to show.\<close>

definition ymd_key :: "string \<Rightarrow> string" where
  "ymd_key d = take 4 (drop 6 d) @ take 2 (drop 3 d) @ take 2 d"

definition listed_before :: "Event \<Rightarrow> Event \<Rightarrow> bool" where
  "listed_before a b =
     (ymd_key (date a) < ymd_key (date b)
      \<or> (date a = date b \<and> start_minute (time a) \<le> start_minute (time b)))"

section \<open>Names for the proofs\<close>

text \<open>The event \<^verbatim>\<open>addEvent\<close> builds.\<close>

definition new_event :: "int \<Rightarrow> string \<Rightarrow> string \<Rightarrow> string \<Rightarrow> string \<Rightarrow> string \<Rightarrow> Event" where
  "new_event i nm dt tm ty loc =
     \<lparr>id_ev = i, name = nm, date = dt, time = tm, type = ty, location = loc\<rparr>"

definition sort_key :: "Event \<Rightarrow> string \<times> nat" where
  "sort_key e = (ymd_key (date e), start_minute (time e))"

subsection \<open>Concrete stores and inputs\<close>

definition kickoff :: Event where
  "kickoff = new_event 1 ''Kickoff'' ''01-01-2030'' ''09:00'' ''Meeting'' ''Hall A''"

definition one_event :: EventManager where
  "one_event = \<lparr>events = [kickoff], nextId = 2, attendeeEmails = []\<rparr>"

definition two_events :: EventManager where
  "two_events =
     \<lparr>events = [kickoff, new_event 2 ''Standup'' ''01-01-2030'' ''10:00'' ''Meeting'' ''Hall A''],
      nextId = 3, attendeeEmails = []\<rparr>"

definition two_events_slots :: "(string \<times> string) list" where
  "two_events_slots =
     [(''08:00'', ''09:00''), (''11:00'', ''12:00''), (''11:30'', ''12:30''),
      (''12:00'', ''13:00''), (''12:30'', ''13:30'')]"

definition three_days :: EventManager where
  "three_days =
     \<lparr>events = [new_event 1 ''a'' ''01-02-2030'' ''09:00'' ''T'' [],
                new_event 2 ''b'' ''31-01-2030'' ''10:00'' ''T'' [],
                new_event 3 ''c'' ''31-01-2030'' ''08:00'' ''T'' []],
      nextId = 4, attendeeEmails = []\<rparr>"

definition three_days_listed :: "Event list" where
  "three_days_listed =
     [new_event 3 ''c'' ''31-01-2030'' ''08:00'' ''T'' [],
      new_event 2 ''b'' ''31-01-2030'' ''10:00'' ''T'' [],
      new_event 1 ''a'' ''01-02-2030'' ''09:00'' ''T'' []]"

text \<open>Two pasted rows with one triple, at one time.\<close>

definition twin_rows :: "string list" where
  "twin_rows = [''1,A,01-01-2030,09:00,T,L'', ''2,a,01-01-2030,09:00,T,L'']"

definition twin_store :: EventManager where
  "twin_store =
     \<lparr>events = [new_event 1 ''A'' ''01-01-2030'' ''09:00'' ''T'' ''L'',
                new_event 2 ''a'' ''01-01-2030'' ''09:00'' ''T'' ''L''],
      nextId = 3, attendeeEmails = []\<rparr>"

text \<open>Three pasted rows, two with the id 1 and one with a negative id.\<close>

definition same_id_rows :: "string list" where
  "same_id_rows =
     [''1,A,01-01-2030,09:00,T,L'', ''1,B,02-01-2030,09:00,T,L'', ''-3,C,03-01-2030,09:00,T,L'']"

definition same_id_store :: EventManager where
  "same_id_store =
     \<lparr>events = [new_event 1 ''A'' ''01-01-2030'' ''09:00'' ''T'' ''L'',
                new_event 1 ''B'' ''02-01-2030'' ''09:00'' ''T'' ''L'',
                new_event (- 3) ''C'' ''03-01-2030'' ''09:00'' ''T'' ''L''],
      nextId = 2, attendeeEmails = []\<rparr>"

text \<open>
  A pasted snapshot: a header, two good rows, a line with no comma, a row with a date
  that does not exist, and after the empty line a row that is never read.
\<close>

definition snapshot_rows :: "string list" where
  "snapshot_rows =
     [''ID,Name,Date,Time,Type,Location'', ''4,Talk,31-01-2030,09:00,Talk,Hall'',
      ''no comma here'', ''7,Lunch,31-01-2030,12:30,Meal'', ''8,Bad,31-02-2030,10:00,Talk,Hall'',
      '''', ''9,After,01-02-2030,10:00,Talk,Hall'']"

definition snapshot_events :: "Event list" where
  "snapshot_events =
     [new_event 4 ''Talk'' ''31-01-2030'' ''09:00'' ''Talk'' ''Hall'',
      new_event 7 ''Lunch'' ''31-01-2030'' ''12:30'' ''Meal'' []]"

definition snapshot_store :: EventManager where
  "snapshot_store = \<lparr>events = snapshot_events, nextId = 8, attendeeEmails = []\<rparr>"

definition snapshot_store_plus :: EventManager where
  "snapshot_store_plus =
     \<lparr>events = snapshot_events @ [new_event 8 ''Review'' ''01-02-2030'' ''10:00'' ''Talk'' []],
      nextId = 9, attendeeEmails = []\<rparr>"

text \<open>
  A pasted row with the largest id an \<^verbatim>\<open>int\<close> holds, and the store after its import and
  one add where the counter wraps.
\<close>

definition max_id_rows :: "string list" where
  "max_id_rows = [''2147483647,A,01-01-2030,09:00,T,L'']"

definition max_id_store :: EventManager where
  "max_id_store =
     \<lparr>events = [new_event 2147483647 ''A'' ''01-01-2030'' ''09:00'' ''T'' ''L''],
      nextId = - 2147483648, attendeeEmails = []\<rparr>"

definition max_id_store_plus :: EventManager where
  "max_id_store_plus =
     \<lparr>events = [new_event 2147483647 ''A'' ''01-01-2030'' ''09:00'' ''T'' ''L'',
                new_event (- 2147483648) ''B'' ''01-01-2030'' ''11:00'' ''T'' ''L''],
      nextId = - 2147483647, attendeeEmails = []\<rparr>"

text \<open>
  Two pasted rows with the largest and the smallest id, and the stores after their
  import, after one add (which gets the smallest id again) and after one edit of that
  id.
\<close>

definition both_ends_rows :: "string list" where
  "both_ends_rows =
     [''2147483647,A,01-01-2030,09:00,T,L'', ''-2147483648,B,01-01-2030,11:00,T,L'']"

definition both_ends_store :: EventManager where
  "both_ends_store =
     \<lparr>events = [new_event 2147483647 ''A'' ''01-01-2030'' ''09:00'' ''T'' ''L'',
                new_event (- 2147483648) ''B'' ''01-01-2030'' ''11:00'' ''T'' ''L''],
      nextId = - 2147483648, attendeeEmails = []\<rparr>"

definition both_ends_store_plus :: EventManager where
  "both_ends_store_plus =
     \<lparr>events = [new_event 2147483647 ''A'' ''01-01-2030'' ''09:00'' ''T'' ''L'',
                new_event (- 2147483648) ''B'' ''01-01-2030'' ''11:00'' ''T'' ''L'',
                new_event (- 2147483648) ''C'' ''01-01-2030'' ''13:00'' ''T'' ''L''],
      nextId = - 2147483647, attendeeEmails = []\<rparr>"

definition both_ends_store_edited :: EventManager where
  "both_ends_store_edited =
     \<lparr>events = [new_event 2147483647 ''A'' ''01-01-2030'' ''09:00'' ''T'' ''L'',
                new_event (- 2147483648) ''C'' ''01-01-2030'' ''13:00'' ''T'' ''L'',
                new_event (- 2147483648) ''C'' ''01-01-2030'' ''13:00'' ''T'' ''L''],
      nextId = - 2147483647, attendeeEmails = []\<rparr>"

section \<open>Proofs\<close>

subsection \<open>Digits\<close>

lemma isdigit_char_int: "isdigit c \<Longrightarrow> char_int c - 48 = int (digit_of c)"
  by (auto simp: isdigit_def char_int_def digit_of_def)

lemma isdigit_digit_of: "isdigit c \<Longrightarrow> digit_of c \<le> 9"
  by (auto simp: isdigit_def digit_of_def)

lemma isdigit_char_of: "isdigit c \<Longrightarrow> char_of (48 + digit_of c) = c"
  by (auto simp: isdigit_def digit_of_def)

lemma isdigit_not_space: "isdigit c \<Longrightarrow> \<not> isspace c"
  by (auto simp: isdigit_def isspace_def)

lemma isdigit_not_sign: "isdigit c \<Longrightarrow> c \<noteq> CHR ''-'' \<and> c \<noteq> CHR ''+''"
  by (auto simp: isdigit_def)

lemma char_of_48: "char_of (48::nat) = CHR ''0''"
  by code_simp

lemma stoi_2:
  "isdigit a \<Longrightarrow> isdigit b \<Longrightarrow> stoi [a, b] = Inr (int (10 * digit_of a + digit_of b))"
  using isdigit_digit_of[of a] isdigit_digit_of[of b]
  by (simp add: stoi_def isdigit_not_space isdigit_not_sign digits_value_def isdigit_char_int
        INT_MIN_def INT_MAX_def Let_def)

lemma stoi_4:
  "isdigit a \<Longrightarrow> isdigit b \<Longrightarrow> isdigit c \<Longrightarrow> isdigit d \<Longrightarrow>
   stoi [a, b, c, d] =
     Inr (int (1000 * digit_of a + 100 * digit_of b + 10 * digit_of c + digit_of d))"
  using isdigit_digit_of[of a] isdigit_digit_of[of b] isdigit_digit_of[of c] isdigit_digit_of[of d]
  by (simp add: stoi_def isdigit_not_space isdigit_not_sign digits_value_def isdigit_char_int
        INT_MIN_def INT_MAX_def Let_def)

lemma length5: "length t = 5 \<Longrightarrow> \<exists>a b c d e. t = [a, b, c, d, e]"
  by (auto simp: length_Suc_conv eval_nat_numeral)

lemma length10: "length t = 10 \<Longrightarrow> \<exists>a b c d e f g h i j. t = [a, b, c, d, e, f, g, h, i, j]"
  by (auto simp: length_Suc_conv eval_nat_numeral)

subsection \<open>Times\<close>

lemma isValidTime_iff:
  "isValidTime t \<longleftrightarrow>
     (\<exists>a b c d. t = [a, b, CHR '':'', c, d] \<and> isdigit a \<and> isdigit b \<and> isdigit c \<and> isdigit d
        \<and> 10 * digit_of a + digit_of b \<le> 23 \<and> 10 * digit_of c + digit_of d \<le> 59)"
  (is "_ \<longleftrightarrow> ?rhs")
proof
  assume v: "isValidTime t"
  then have "length t = 5" by (auto simp: isValidTime_def split: if_splits)
  then obtain a b s c d where t: "t = [a, b, s, c, d]" using length5 by blast
  from v show ?rhs
    unfolding t by (auto simp: isValidTime_def isdigit_char_int Let_def split: if_splits)
next
  assume ?rhs
  then show "isValidTime t"
    by (auto simp: isValidTime_def isdigit_char_int Let_def)
qed

lemma toMinutes_5:
  "toMinutes [a, b, s, c, d] =
     Inr ((char_int a - 48) * 600 + (char_int b - 48) * 60 + (char_int c - 48) * 10
          + (char_int d - 48))"
  by (simp add: toMinutes_def at_def andThen_def)

lemma toMinutes_digits:
  assumes "isdigit a" "isdigit b" "isdigit c" "isdigit d"
  shows "toMinutes [a, b, s, c, d] =
           Inr (int (60 * (10 * digit_of a + digit_of b) + (10 * digit_of c + digit_of d)))"
  using assms by (simp add: toMinutes_5 isdigit_char_int)

lemma setw2_decimal:
  "n < 100 \<Longrightarrow>
   setw_setfill 2 CHR ''0'' (decimal n) = [char_of (48 + n div 10), char_of (48 + n mod 10)]"
proof (cases "n < 10")
  case True
  then show ?thesis by (simp add: decimal.simps[of n] setw_setfill_def char_of_48)
next
  case False
  assume "n < 100"
  with False have "n div 10 < 10" by simp
  with False show ?thesis
    by (simp add: decimal.simps[of n] decimal.simps[of "n div 10"] setw_setfill_def)
qed

lemma fromMinutes_hm:
  assumes h: "h \<le> 23" and m: "m \<le> 59"
  shows "fromMinutes (int (60 * h + m)) =
           [char_of (48 + h div 10), char_of (48 + h mod 10), CHR '':'',
            char_of (48 + m div 10), char_of (48 + m mod 10)]"
proof -
  have 1: "int (60 * h + m) mod (24 * 60) = int (60 * h + m)" using h m by simp
  have 2: "int (60 * h + m) div 60 = int h" using m by simp
  have 3: "int (60 * h + m) mod 60 = int m" using m by simp
  show ?thesis using h m
    by (simp add: fromMinutes_def Let_def 1 2 3 ostream_int_def setw2_decimal
          del: of_nat_add of_nat_mult)
qed

text \<open>
  C8. For every time text that \<open>isValidTime\<close> accepts, \<open>toMinutes\<close> returns, and
  \<open>fromMinutes\<close> of what it returns is the text again.
\<close>

theorem fromMinutes_toMinutes_roundtrip:
  "isValidTime t \<Longrightarrow> \<exists>m. toMinutes t = Inr m \<and> fromMinutes m = t"
proof -
  assume "isValidTime t"
  then obtain a b c d where t: "t = [a, b, CHR '':'', c, d]"
    and dg: "isdigit a" "isdigit b" "isdigit c" "isdigit d"
    and h: "10 * digit_of a + digit_of b \<le> 23" and m: "10 * digit_of c + digit_of d \<le> 59"
    unfolding isValidTime_iff by blast
  have "fromMinutes (int (60 * (10 * digit_of a + digit_of b) + (10 * digit_of c + digit_of d))) = t"
    unfolding fromMinutes_hm[OF h m] t
    using dg isdigit_digit_of[of a] isdigit_digit_of[of b] isdigit_digit_of[of c]
      isdigit_digit_of[of d]
    by (simp add: isdigit_char_of)
  then show ?thesis using toMinutes_digits[OF dg] t by simp
qed

theorem fromMinutes_toMinutes_roundtrip_witness:
  "isValidTime ''23:59'' \<and> toMinutes ''23:59'' = Inr 1439 \<and> fromMinutes 1439 = ''23:59''"
proof -
  have v: "isValidTime ''23:59''"
    by (simp add: isValidTime_def isdigit_def char_int_def)
  have m: "toMinutes ''23:59'' = Inr 1439"
    by (simp add: toMinutes_5 char_int_def)
  from fromMinutes_toMinutes_roundtrip[OF v] m have "fromMinutes 1439 = ''23:59''" by simp
  with v m show ?thesis by simp
qed

text \<open>
  C10. On a time text that \<open>isValidTime\<close> accepts, which has five characters, \<open>toMinutes\<close>
  reads inside the text and returns a value from 0 to 1439. It has no test of its own:
  it reads outside the text exactly when the text has fewer than four characters (at
  four it reads the terminator), and that is the only way it fails.
\<close>

theorem toMinutes_safe_on_valid_times:
  "(isValidTime t \<longrightarrow> length t = 5 \<and> (\<exists>m. toMinutes t = Inr m \<and> 0 \<le> m \<and> m \<le> 1439))
   \<and> ((toMinutes u = Inl OutOfBounds) = (length u < 4))
   \<and> (\<forall>f. toMinutes u = Inl f \<longrightarrow> f = OutOfBounds)"
proof (intro conjI impI allI)
  assume "isValidTime t"
  then obtain a b c d where t: "t = [a, b, CHR '':'', c, d]"
    and dg: "isdigit a" "isdigit b" "isdigit c" "isdigit d"
    and h: "10 * digit_of a + digit_of b \<le> 23" and m: "10 * digit_of c + digit_of d \<le> 59"
    unfolding isValidTime_iff by blast
  show "length t = 5" by (simp add: t)
  show "\<exists>m. toMinutes t = Inr m \<and> 0 \<le> m \<and> m \<le> 1439"
    using toMinutes_digits[OF dg] t h m by simp
next
  show "(toMinutes u = Inl OutOfBounds) = (length u < 4)"
    by (auto simp: toMinutes_def at_def andThen_def split: if_splits)
next
  fix f assume "toMinutes u = Inl f" then show "f = OutOfBounds"
    by (auto simp: toMinutes_def at_def andThen_def split: if_splits)
qed

theorem toMinutes_safe_on_valid_times_witness:
  "isValidTime ''09:30'' \<and> length ''09:30'' = 5 \<and> toMinutes ''09:30'' = Inr 570
   \<and> length ''9:3'' < 4 \<and> toMinutes ''9:3'' = Inl OutOfBounds"
proof -
  have v: "isValidTime ''09:30''"
    by (simp add: isValidTime_def isdigit_def char_int_def)
  have m: "toMinutes ''09:30'' = Inr 570"
    by (simp add: toMinutes_5 char_int_def)
  have l: "length ''9:3'' < 4" by simp
  from toMinutes_safe_on_valid_times[of "''09:30''" "''9:3''"] v l
  have "length ''09:30'' = 5" and "toMinutes ''9:3'' = Inl OutOfBounds" by blast+
  with v m l show ?thesis by simp
qed

subsection \<open>Dates\<close>

lemma date_fields_length: "length d \<noteq> 10 \<Longrightarrow> date_fields d = None"
  by (auto simp: date_fields_def split: list.splits)

lemma isLeap_leap_year: "isLeap (int y) = leap_year y"
proof -
  have "\<And>k. (int y mod int k = 0) = (k dvd y)"
    by (metis int_dvd_int_iff mod_0_imp_dvd mod_eq_0_iff_dvd)
  from this[of 4] this[of 100] this[of 400] show ?thesis
    by (auto simp: isLeap_def leap_year_def)
qed

lemma mdays_nth:
  assumes "1 \<le> m" "m \<le> 12"
  shows "(if int m = 2 \<and> isLeap (int y) then mdays[2 := 29] else mdays) ! nat (int m)
           = int (days_in_month m y)"
proof -
  from assms
  have "m = 1 \<or> m = 2 \<or> m = 3 \<or> m = 4 \<or> m = 5 \<or> m = 6 \<or> m = 7 \<or> m = 8 \<or> m = 9
          \<or> m = 10 \<or> m = 11 \<or> m = 12"
    by arith
  then show ?thesis
    by (elim disjE) (simp_all add: mdays_def days_in_month_def isLeap_leap_year)
qed

lemma isValidDate_10:
  "isValidDate [d1, d2, s1, m1, m2, s2, y1, y2, y3, y4]
     = Inr (valid_date_spec [d1, d2, s1, m1, m2, s2, y1, y2, y3, y4])"
proof (cases "s1 = CHR ''-'' \<and> s2 = CHR ''-'' \<and> isdigit d1 \<and> isdigit d2 \<and> isdigit m1 \<and> isdigit m2
        \<and> isdigit y1 \<and> isdigit y2 \<and> isdigit y3 \<and> isdigit y4")
  case False
  then show ?thesis
    by (auto simp: isValidDate_def valid_date_spec_def date_fields_def upt_rec[of _ 10] nth_Cons')
next
  case True
  let ?day = "10 * digit_of d1 + digit_of d2"
  let ?mon = "10 * digit_of m1 + digit_of m2"
  let ?yr = "1000 * digit_of y1 + 100 * digit_of y2 + 10 * digit_of y3 + digit_of y4"
  have spec: "valid_date_spec [d1, d2, s1, m1, m2, s2, y1, y2, y3, y4] =
     (1900 \<le> ?yr \<and> ?yr \<le> 3000 \<and> 1 \<le> ?mon \<and> ?mon \<le> 12 \<and> 1 \<le> ?day
        \<and> ?day \<le> days_in_month ?mon ?yr)"
    using True by (simp add: valid_date_spec_def date_fields_def decimal_value_def Let_def)
  have code: "isValidDate [d1, d2, s1, m1, m2, s2, y1, y2, y3, y4] =
     (if int ?yr < 1900 \<or> int ?yr > 3000 then Inr False
      else if int ?mon < 1 \<or> int ?mon > 12 then Inr False
      else Inr (int ?day \<ge> 1 \<and> int ?day
             \<le> (if int ?mon = 2 \<and> isLeap (int ?yr) then mdays[2 := 29] else mdays) ! nat (int ?mon)))"
    using True
    by (simp add: isValidDate_def upt_rec[of _ 10] substr_def andThen_def stoi_2 stoi_4 Let_def
          del: of_nat_add of_nat_mult)
  show ?thesis
  proof (cases "1 \<le> ?mon \<and> ?mon \<le> 12")
    case True
    then show ?thesis
      unfolding code spec using mdays_nth[of ?mon ?yr] by (auto simp del: of_nat_add of_nat_mult)
  next
    case False
    then show ?thesis unfolding code spec by auto
  qed
qed

lemma isValidDate_eq: "isValidDate d = Inr (valid_date_spec d)"
proof (cases "length d = 10")
  case True
  from length10[OF True] show ?thesis
    by (elim exE) (simp only: isValidDate_10)
next
  case False
  then show ?thesis
    by (simp add: isValidDate_def valid_date_spec_def date_fields_length)
qed

text \<open>
  C5. \<open>isValidDate\<close> never raises, and it accepts a text exactly when the text is ten
  characters \<^verbatim>\<open>DD-MM-YYYY\<close> with two \<^verbatim>\<open>-\<close> separators and three all-digit fields, the
  year from 1900 to 3000, the month from 1 to 12 and the day from 1 to the days of
  that month, February having 29 days exactly in leap years.
\<close>

theorem isValidDate_meets_spec: "isValidDate d = Inr (valid_date_spec d)"
  by (rule isValidDate_eq)

theorem isValidDate_meets_spec_witness:
  "isValidDate ''29-02-2024'' = Inr True \<and> isValidDate ''29-02-2023'' = Inr False
   \<and> isValidDate ''31-04-2024'' = Inr False \<and> isValidDate ''29-02-1900'' = Inr False
   \<and> isValidDate ''1-1-2024'' = Inr False"
  using isValidDate_meets_spec[of "''29-02-2024''"] isValidDate_meets_spec[of "''29-02-2023''"]
    isValidDate_meets_spec[of "''31-04-2024''"] isValidDate_meets_spec[of "''29-02-1900''"]
    isValidDate_meets_spec[of "''1-1-2024''"]
  by (simp add: valid_date_spec_def date_fields_def isdigit_def decimal_value_def digit_of_def
        days_in_month_def leap_year_def)

subsection \<open>Sequencing\<close>

lemma andThen_Inr [simp]: "andThen (Inr x) f = f x"
  by (simp add: andThen_def)

lemma andThen_Inl [simp]: "andThen (Inl e) f = Inl e"
  by (simp add: andThen_def)

lemma andThen_eq_Inr: "andThen m f = Inr y \<longleftrightarrow> (\<exists>x. m = Inr x \<and> f x = Inr y)"
  by (cases m) auto

subsection \<open>Conflicts\<close>

lemma toMinutes_start_minute: "isValidTime t \<Longrightarrow> toMinutes t = Inr (int (start_minute t))"
proof -
  assume "isValidTime t"
  then obtain a b c d where t: "t = [a, b, CHR '':'', c, d]"
    and dg: "isdigit a" "isdigit b" "isdigit c" "isdigit d"
    unfolding isValidTime_iff by blast
  show ?thesis unfolding t toMinutes_digits[OF dg]
    by (simp add: start_minute_def decimal_value_def)
qed

lemma toMinutes_fault: "toMinutes t = Inl f \<Longrightarrow> f = OutOfBounds"
  by (auto simp: toMinutes_def at_def andThen_def split: if_splits)

lemma conflicts_valid:
  "isValidTime (time a) \<Longrightarrow> isValidTime (time b) \<Longrightarrow> conflicts a b = Inr (overlapping a b)"
  by (auto simp: conflicts_def overlapping_def toMinutes_start_minute Let_def)

text \<open>
  The conflict test does not depend on the order of its arguments, also where it reads
  outside a time text (either order then reads outside one).
\<close>

lemma conflicts_commute: "conflicts a b = conflicts b a"
proof (cases "date a = date b")
  case False
  then show ?thesis by (auto simp: conflicts_def)
next
  case True
  show ?thesis
  proof (cases "toMinutes (time a)")
    case (Inl f)
    note fa = this
    show ?thesis
    proof (cases "toMinutes (time b)")
      case (Inl g)
      with fa True toMinutes_fault[OF fa] toMinutes_fault[OF Inl] show ?thesis
        by (simp add: conflicts_def)
    next
      case (Inr y)
      with fa True show ?thesis by (simp add: conflicts_def)
    qed
  next
    case (Inr x)
    note xa = this
    show ?thesis
    proof (cases "toMinutes (time b)")
      case (Inl g)
      with xa True show ?thesis by (simp add: conflicts_def)
    next
      case (Inr y)
      with xa True show ?thesis by (auto simp: conflicts_def Let_def)
    qed
  qed
qed

lemma overlapping_sym: "overlapping a b \<Longrightarrow> overlapping b a"
  by (auto simp: overlapping_def)

lemma same_triple_sym: "same_triple a b \<Longrightarrow> same_triple b a"
  by (auto simp: same_triple_def iequals_def)

lemma conflict_scan_None:
  "conflict_scan g e es = Inr None \<Longrightarrow> ex \<in> set es \<Longrightarrow> g ex \<Longrightarrow> conflicts e ex = Inr False"
  by (induction es) (auto simp: andThen_eq_Inr split: if_splits)

lemma conflict_scan_Some:
  "conflict_scan g e es = Inr (Some ex) \<Longrightarrow> ex \<in> set es \<and> g ex \<and> conflicts e ex = Inr True"
  by (induction es) (auto simp: andThen_eq_Inr split: if_splits)

lemma conflict_scan_total:
  "isValidTime (time e) \<Longrightarrow> valid_times es \<Longrightarrow> \<exists>r. conflict_scan g e es = Inr r"
  by (induction es) (auto simp: valid_times_def conflicts_valid)

lemma conflict_scan_finds:
  "isValidTime (time e) \<Longrightarrow> valid_times es \<Longrightarrow> x \<in> set es \<Longrightarrow> g x \<Longrightarrow> overlapping e x
     \<Longrightarrow> \<exists>ex. conflict_scan g e es = Inr (Some ex)"
  by (induction es) (auto simp: valid_times_def conflicts_valid)

lemma conflict_scan_clear:
  "isValidTime (time e) \<Longrightarrow> valid_times es \<Longrightarrow> \<forall>x\<in>set es. g x \<longrightarrow> \<not> overlapping e x
     \<Longrightarrow> conflict_scan g e es = Inr None"
  by (induction es) (auto simp: valid_times_def conflicts_valid)

subsection \<open>The sort and the slot suggestion return\<close>

lemma insert_sorted_total:
  "\<forall>y\<in>set ys. \<exists>v. lt x y = Inr v
     \<Longrightarrow> \<exists>r. insert_sorted lt x ys = Inr r \<and> set r = insert x (set ys)"
proof (induction ys)
  case Nil
  show ?case by simp
next
  case (Cons y ys)
  then obtain v where v: "lt x y = Inr v" by auto
  from Cons obtain r where r: "insert_sorted lt x ys = Inr r" "set r = insert x (set ys)" by auto
  show ?case using v r by (cases v) auto
qed

lemma std_sort_total:
  "\<forall>x\<in>set xs. \<forall>y\<in>set xs. \<exists>v. lt x y = Inr v
     \<Longrightarrow> \<exists>r. std_sort lt xs = Inr r \<and> set r = set xs"
proof (induction xs)
  case Nil
  show ?case by simp
next
  case (Cons x xs)
  then obtain r where r: "std_sort lt xs = Inr r" "set r = set xs" by auto
  from Cons.prems r(2) have "\<forall>y\<in>set r. \<exists>v. lt x y = Inr v" by simp
  from insert_sorted_total[of r lt x, OF this] r show ?case by auto
qed

lemma occupied_total: "valid_times es \<Longrightarrow> \<exists>occ. occupied dt es = Inr occ"
  by (induction es) (auto simp: valid_times_def toMinutes_start_minute)

lemma suggestSlots_total: "valid_times (events s) \<Longrightarrow> \<exists>sl. suggestSlots dt duration s = Inr sl"
proof -
  assume "valid_times (events s)"
  from occupied_total[OF this] obtain occ where o: "occupied dt (events s) = Inr occ" by blast
  have "\<exists>r. std_sort (\<lambda>a b. Inr (a < b)) occ = Inr r \<and> set r = set occ"
    by (rule std_sort_total) simp
  with o show ?thesis by (auto simp: suggestSlots_def)
qed

subsection \<open>addEvent\<close>

text \<open>Every way \<open>addEvent\<close> returns, with what led there and what it left.\<close>

lemma addEvent_cases:
  assumes "addEvent nm dt tm ty loc verbose s = Inr (st, s')"
  shows "(st = InvalidDate \<and> \<not> valid_date_spec dt \<and> s' = s)
       \<or> (st = InvalidTime \<and> valid_date_spec dt \<and> \<not> isValidTime tm \<and> s' = s)
       \<or> (st = DuplicateExists \<and> valid_date_spec dt \<and> isValidTime tm \<and> isDuplicate nm dt tm s
            \<and> s' = s)
       \<or> (\<exists>ex sl. st = Conflict ex sl \<and> valid_date_spec dt \<and> isValidTime tm
             \<and> \<not> isDuplicate nm dt tm s
             \<and> conflict_scan (\<lambda>ex. True) (new_event (nextId s) nm dt tm ty loc) (events s)
                 = Inr (Some ex)
             \<and> s' = s\<lparr>nextId := nextId s + 1\<rparr>)
       \<or> (st = Added (nextId s) \<and> valid_date_spec dt \<and> isValidTime tm
             \<and> \<not> isDuplicate nm dt tm s
             \<and> conflict_scan (\<lambda>ex. True) (new_event (nextId s) nm dt tm ty loc) (events s)
                 = Inr None
             \<and> s' = s\<lparr>nextId := nextId s + 1,
                       events := events s @ [new_event (nextId s) nm dt tm ty loc]\<rparr>)"
  using assms
  by (cases verbose)
     (auto simp: addEvent_def isValidDate_eq new_event_def Let_def andThen_eq_Inr
           split: if_splits option.splits)

text \<open>
  The order of the tests: the date first, then the time, then the duplicate, then the
  conflict; the first three leave the whole store as it was.
\<close>

lemma addEvent_invalid_date:
  "\<not> valid_date_spec dt \<Longrightarrow> addEvent nm dt tm ty loc verbose s = Inr (InvalidDate, s)"
  by (simp add: addEvent_def isValidDate_eq)

lemma addEvent_invalid_time:
  "valid_date_spec dt \<Longrightarrow> \<not> isValidTime tm
     \<Longrightarrow> addEvent nm dt tm ty loc verbose s = Inr (InvalidTime, s)"
  by (simp add: addEvent_def isValidDate_eq)

lemma addEvent_duplicate:
  "valid_date_spec dt \<Longrightarrow> isValidTime tm \<Longrightarrow> isDuplicate nm dt tm s
     \<Longrightarrow> addEvent nm dt tm ty loc verbose s = Inr (DuplicateExists, s)"
  by (simp add: addEvent_def isValidDate_eq)

lemma addEvent_conflict:
  assumes "valid_date_spec dt" "isValidTime tm" "\<not> isDuplicate nm dt tm s" "nextId s \<noteq> INT_MAX"
    and v: "valid_times (events s)" and x: "x \<in> set (events s)"
    and o: "overlapping (new_event (nextId s) nm dt tm ty loc) x"
  shows "\<exists>ex sl. addEvent nm dt tm ty loc verbose s
                   = Inr (Conflict ex sl, s\<lparr>nextId := nextId s + 1\<rparr>)"
proof -
  let ?e = "new_event (nextId s) nm dt tm ty loc"
  have "isValidTime (time ?e)" using assms(2) by (simp add: new_event_def)
  from conflict_scan_finds[OF this v x _ o, of "\<lambda>ex. True"]
  obtain ex where ex: "conflict_scan (\<lambda>ex. True) ?e (events s) = Inr (Some ex)" by auto
  from suggestSlots_total[of "s\<lparr>nextId := nextId s + 1\<rparr>" dt 60] v
  obtain sl where "suggestSlots dt 60 (s\<lparr>nextId := nextId s + 1\<rparr>) = Inr sl" by auto
  with ex assms(1-4) show ?thesis
    by (cases verbose) (auto simp: addEvent_def isValidDate_eq new_event_def Let_def)
qed

text \<open>A candidate that passes the four tests is appended with the counter's value as id.\<close>

lemma addEvent_succeeds:
  assumes "valid_date_spec dt" "isValidTime tm" "\<not> isDuplicate nm dt tm s" "nextId s \<noteq> INT_MAX"
    and v: "valid_times (events s)"
    and o: "\<forall>x\<in>set (events s). \<not> overlapping (new_event (nextId s) nm dt tm ty loc) x"
  shows "addEvent nm dt tm ty loc verbose s
           = Inr (Added (nextId s),
                  s\<lparr>nextId := nextId s + 1,
                    events := events s @ [new_event (nextId s) nm dt tm ty loc]\<rparr>)"
proof -
  let ?e = "new_event (nextId s) nm dt tm ty loc"
  have "isValidTime (time ?e)" using assms(2) by (simp add: new_event_def)
  from conflict_scan_clear[OF this v, of "\<lambda>ex. True"] o
  have "conflict_scan (\<lambda>ex. True) ?e (events s) = Inr None" by simp
  with assms(1-4) show ?thesis
    by (simp add: addEvent_def isValidDate_eq new_event_def Let_def)
qed

lemma one_event_conflict:
  "addEvent ''Standup'' ''01-01-2030'' ''09:30'' ''Meeting'' ''Hall A'' True one_event =
     Inr (Conflict kickoff
            (Some [(''08:00'', ''09:00''), (''10:00'', ''11:00''), (''10:30'', ''11:30''),
                   (''11:00'', ''12:00''), (''11:30'', ''12:30'')]),
          one_event\<lparr>nextId := 3\<rparr>)"
  unfolding one_event_def kickoff_def by code_simp

text \<open>
  C1 (the code departs from the claim). When \<open>addEvent\<close> rejects a candidate for a
  conflict, the events and the attendee list are as before, but the id counter has
  moved by one: the store is not the store it was. The three other rejections leave
  the store untouched (\<open>addEvent_invalid_date\<close>, \<open>addEvent_invalid_time\<close>,
  \<open>addEvent_duplicate\<close>), in the order the claim gives.
\<close>

theorem addEvent_conflict_advances_nextId:
  "addEvent nm dt tm ty loc verbose s = Inr (Conflict ex sl, s') \<Longrightarrow>
     events s' = events s \<and> attendeeEmails s' = attendeeEmails s
     \<and> nextId s' = nextId s + 1 \<and> s' \<noteq> s"
proof -
  assume a: "addEvent nm dt tm ty loc verbose s = Inr (Conflict ex sl, s')"
  from addEvent_cases[OF a] have s': "s' = s\<lparr>nextId := nextId s + 1\<rparr>" by auto
  have "nextId s' \<noteq> nextId s" unfolding s' by simp
  then have "s' \<noteq> s" by auto
  then show ?thesis unfolding s' by simp
qed

theorem addEvent_conflict_advances_nextId_witness:
  "addEvent ''Standup'' ''01-01-2030'' ''09:30'' ''Meeting'' ''Hall A'' True one_event =
     Inr (Conflict kickoff
            (Some [(''08:00'', ''09:00''), (''10:00'', ''11:00''), (''10:30'', ''11:30''),
                   (''11:00'', ''12:00''), (''11:30'', ''12:30'')]),
          one_event\<lparr>nextId := 3\<rparr>)
   \<and> nextId one_event = 2 \<and> nextId (one_event\<lparr>nextId := 3\<rparr>) = 3
   \<and> one_event\<lparr>nextId := 3\<rparr> \<noteq> one_event"
  using addEvent_conflict_advances_nextId[OF one_event_conflict] one_event_conflict
  by (simp add: one_event_def)

subsection \<open>The scenario of two events\<close>

lemma valid_date_2030: "isValidDate ''01-01-2030'' = Inr True"
  by (simp add: isValidDate_eq valid_date_spec_def date_fields_def isdigit_def decimal_value_def
        digit_of_def days_in_month_def leap_year_def)

lemma fromMinutes_values:
  "fromMinutes 480 = ''08:00''" "fromMinutes 540 = ''09:00''"
  "fromMinutes 660 = ''11:00''" "fromMinutes 690 = ''11:30''" "fromMinutes 720 = ''12:00''"
  "fromMinutes 750 = ''12:30''" "fromMinutes 780 = ''13:00''" "fromMinutes 810 = ''13:30''"
  by code_simp+

lemma slot_scan_two:
  "slot_scan 60 [(540, 600), (600, 660)] (8 * 60) 0 = two_events_slots"
  by (simp add: slot_scan.simps fromMinutes_values two_events_slots_def)

lemma first_add:
  "addEvent n1 ''01-01-2030'' ''09:00'' ty1 l1 v1 initial =
     Inr (Added 1,
          \<lparr>events = [new_event 1 n1 ''01-01-2030'' ''09:00'' ty1 l1], nextId = 2,
             attendeeEmails = []\<rparr>)"
  by (simp add: addEvent_def valid_date_2030 initial_def isValidTime_def isdigit_def char_int_def
        isDuplicate_def INT_MAX_def new_event_def)

lemma second_add:
  "addEvent n2 ''01-01-2030'' ''10:00'' ty2 l2 v2
       \<lparr>events = [new_event 1 n1 ''01-01-2030'' ''09:00'' ty1 l1], nextId = 2,
          attendeeEmails = []\<rparr> =
     Inr (Added 2,
          \<lparr>events = [new_event 1 n1 ''01-01-2030'' ''09:00'' ty1 l1,
                     new_event 2 n2 ''01-01-2030'' ''10:00'' ty2 l2],
             nextId = 3, attendeeEmails = []\<rparr>)"
  by (simp add: addEvent_def valid_date_2030 isValidTime_def isdigit_def char_int_def
        isDuplicate_def INT_MAX_def conflicts_def toMinutes_5 new_event_def)

lemma slots_after_two:
  "suggestSlots ''01-01-2030'' 60
       \<lparr>events = [new_event 1 n1 ''01-01-2030'' ''09:00'' ty1 l1,
                  new_event 2 n2 ''01-01-2030'' ''10:00'' ty2 l2],
          nextId = 3, attendeeEmails = []\<rparr> =
     Inr two_events_slots"
  using slot_scan_two
  by (simp add: suggestSlots_def toMinutes_5 char_int_def new_event_def)

text \<open>
  C4 (amended). From the empty store, an event at 09:00 and an event at 10:00 on
  01-01-2030, whatever their names, types and locations, are added with the ids 1 and
  2, and \<open>suggestSlots\<close> for that date with the duration 60 then gives exactly
  08:00 to 09:00, 11:00 to 12:00, 11:30 to 12:30, 12:00 to 13:00 and 12:30 to 13:30:
  neither 08:30 to 09:30 nor 09:00 to 10:00, and not 10:30 to 11:30 either, which
  overlaps the event from 10:00 to 11:00.
\<close>

theorem suggestSlots_after_two_adds:
  "addEvent n1 ''01-01-2030'' ''09:00'' ty1 l1 v1 initial =
     Inr (Added 1,
          \<lparr>events = [new_event 1 n1 ''01-01-2030'' ''09:00'' ty1 l1], nextId = 2,
             attendeeEmails = []\<rparr>)
   \<and> addEvent n2 ''01-01-2030'' ''10:00'' ty2 l2 v2
       \<lparr>events = [new_event 1 n1 ''01-01-2030'' ''09:00'' ty1 l1], nextId = 2,
          attendeeEmails = []\<rparr> =
     Inr (Added 2,
          \<lparr>events = [new_event 1 n1 ''01-01-2030'' ''09:00'' ty1 l1,
                     new_event 2 n2 ''01-01-2030'' ''10:00'' ty2 l2],
             nextId = 3, attendeeEmails = []\<rparr>)
   \<and> suggestSlots ''01-01-2030'' 60
       \<lparr>events = [new_event 1 n1 ''01-01-2030'' ''09:00'' ty1 l1,
                  new_event 2 n2 ''01-01-2030'' ''10:00'' ty2 l2],
          nextId = 3, attendeeEmails = []\<rparr> =
     Inr [(''08:00'', ''09:00''), (''11:00'', ''12:00''), (''11:30'', ''12:30''),
          (''12:00'', ''13:00''), (''12:30'', ''13:30'')]"
  using first_add[of n1 ty1 l1 v1] second_add[of n2 ty2 l2 v2 n1 ty1 l1]
    slots_after_two[of n1 ty1 l1 n2 ty2 l2]
  by (simp add: two_events_slots_def)

theorem suggestSlots_after_two_adds_witness:
  "addEvent ''Kickoff'' ''01-01-2030'' ''09:00'' ''Meeting'' ''Hall A'' True initial
     = Inr (Added 1, one_event)
   \<and> addEvent ''Standup'' ''01-01-2030'' ''10:00'' ''Meeting'' ''Hall A'' True one_event
     = Inr (Added 2, two_events)
   \<and> suggestSlots ''01-01-2030'' 60 two_events = Inr two_events_slots"
  using suggestSlots_after_two_adds[of "''Kickoff''" "''Meeting''" "''Hall A''" True
      "''Standup''" "''Meeting''" "''Hall A''" True]
  by (simp add: one_event_def two_events_def kickoff_def two_events_slots_def)

text \<open>
  The claim as it stands fails: after the two adds the window 10:30 to 11:30 is not
  among the suggestions.
\<close>

theorem suggestSlots_does_not_offer_1030:
  "addEvent ''Kickoff'' ''01-01-2030'' ''09:00'' ''Meeting'' ''Hall A'' True initial
     = Inr (Added 1, one_event)
   \<and> addEvent ''Standup'' ''01-01-2030'' ''10:00'' ''Meeting'' ''Hall A'' True one_event
     = Inr (Added 2, two_events)
   \<and> suggestSlots ''01-01-2030'' 60 two_events = Inr two_events_slots
   \<and> (''10:30'', ''11:30'') \<notin> set two_events_slots"
proof -
  have "addEvent ''Kickoff'' ''01-01-2030'' ''09:00'' ''Meeting'' ''Hall A'' True initial
     = Inr (Added 1, one_event)"
    using first_add[of "''Kickoff''" "''Meeting''" "''Hall A''" True]
    by (simp add: one_event_def kickoff_def)
  moreover have "addEvent ''Standup'' ''01-01-2030'' ''10:00'' ''Meeting'' ''Hall A'' True one_event
     = Inr (Added 2, two_events)"
    using second_add[of "''Standup''" "''Meeting''" "''Hall A''" True "''Kickoff''" "''Meeting''"
        "''Hall A''"]
    by (simp add: one_event_def two_events_def kickoff_def)
  moreover have "suggestSlots ''01-01-2030'' 60 two_events = Inr two_events_slots"
    using slots_after_two[of "''Kickoff''" "''Meeting''" "''Hall A''" "''Standup''" "''Meeting''"
        "''Hall A''"]
    by (simp add: two_events_def kickoff_def)
  moreover have "(''10:30'', ''11:30'') \<notin> set two_events_slots"
    by (simp add: two_events_slots_def)
  ultimately show ?thesis by simp
qed

subsection \<open>editEventById\<close>

lemma id_merged [simp]: "id_ev (merged e a b c d l) = id_ev e"
  by (simp add: merged_def)

lemma find_if_Some:
  "find_if p xs = Some k \<Longrightarrow> k < length xs \<and> p (xs ! k) \<and> (\<forall>j<k. \<not> p (xs ! j))"
proof (induction xs arbitrary: k)
  case Nil
  then show ?case by simp
next
  case (Cons x xs)
  then show ?case
    by (auto simp: nth_Cons' less_Suc_eq_0_disj split: if_splits)
qed

lemma find_if_None: "find_if p xs = None \<longleftrightarrow> (\<forall>x\<in>set xs. \<not> p x)"
  by (induction xs) auto

lemma edit_failure:
  assumes "editEventById i a b c d l s = Inr (st, s')" and "st \<noteq> Updated"
  shows "s' = s"
  using assms
  by (auto simp: editEventById_def Let_def andThen_eq_Inr split: option.splits if_splits)

lemma edit_success:
  assumes "editEventById i a b c d l s = Inr (Updated, s')"
  shows "\<exists>k. find_if (\<lambda>e. id_ev e = i) (events s) = Some k
           \<and> s' = s\<lparr>events := (events s)[k := merged (events s ! k) a b c d l]\<rparr>
           \<and> valid_date_spec (date (merged (events s ! k) a b c d l))
           \<and> isValidTime (time (merged (events s ! k) a b c d l))
           \<and> \<not> list_ex (\<lambda>ex. id_ev ex \<noteq> i \<and> same_triple ex (merged (events s ! k) a b c d l))
                 (events s')
           \<and> conflict_scan (\<lambda>ex. id_ev ex \<noteq> i) (merged (events s ! k) a b c d l) (events s')
               = Inr None"
  using assms
  by (auto simp: editEventById_def Let_def andThen_eq_Inr isValidDate_eq merged_def
        same_triple_def
      split: option.splits if_splits dest!: find_if_Some)

lemma edit_total:
  assumes "valid_times (events s)"
  shows "\<exists>st s'. editEventById i a b c d l s = Inr (st, s')"
proof (cases "find_if (\<lambda>e. id_ev e = i) (events s)")
  case None
  then show ?thesis by (simp add: editEventById_def)
next
  case (Some k)
  let ?e = "merged (events s ! k) a b c d l"
  let ?s1 = "s\<lparr>events := (events s)[k := ?e]\<rparr>"
  show ?thesis
  proof (cases "valid_date_spec (date ?e) \<and> isValidTime (time ?e)")
    case False
    with Some show ?thesis
      by (auto simp: editEventById_def isValidDate_eq Let_def merged_def)
  next
    case True
    then have vt: "isValidTime (time ?e)" by simp
    have v1: "valid_times (events ?s1)"
      using assms vt set_update_subset_insert[of "events s" k ?e]
      by (auto simp: valid_times_def list_all_iff)
    from conflict_scan_total[OF vt v1, of "\<lambda>ex. id_ev ex \<noteq> id_ev ?e"]
    obtain r where r: "conflict_scan (\<lambda>ex. id_ev ex \<noteq> id_ev ?e) ?e (events ?s1) = Inr r"
      by auto
    from suggestSlots_total[OF v1] obtain sl where sl: "suggestSlots (date ?e) 60 ?s1 = Inr sl"
      by blast
    from Some True r sl show ?thesis
      by (cases r) (auto simp: editEventById_def isValidDate_eq Let_def merged_def)
  qed
qed

text \<open>
  The three checks in their order, each as the status it ends in, and each leaving the
  store as it was.
\<close>

lemma edit_not_found:
  "find_if (\<lambda>e. id_ev e = i) (events s) = None \<Longrightarrow> editEventById i a b c d l s = Inr (NotFound, s)"
  by (simp add: editEventById_def)

lemma edit_rejects_invalid:
  assumes "find_if (\<lambda>e. id_ev e = i) (events s) = Some k"
    and "\<not> (valid_date_spec (date (merged (events s ! k) a b c d l))
            \<and> isValidTime (time (merged (events s ! k) a b c d l)))"
  shows "editEventById i a b c d l s = Inr (InvalidDateTime, s)"
  using assms by (auto simp: editEventById_def isValidDate_eq Let_def)

lemma edit_rejects_duplicate:
  assumes "find_if (\<lambda>e. id_ev e = i) (events s) = Some k"
    and "valid_date_spec (date (merged (events s ! k) a b c d l))"
    and "isValidTime (time (merged (events s ! k) a b c d l))"
    and "x \<in> set ((events s)[k := merged (events s ! k) a b c d l])" and "id_ev x \<noteq> i"
    and "same_triple x (merged (events s ! k) a b c d l)"
  shows "editEventById i a b c d l s = Inr (DuplicateAfterEdit, s)"
proof -
  from find_if_Some[OF assms(1)] have "id_ev (events s ! k) = i" by simp
  with assms show ?thesis
    by (auto simp: editEventById_def isValidDate_eq Let_def list_ex_iff same_triple_def)
qed

lemma edit_rejects_conflict:
  assumes f: "find_if (\<lambda>e. id_ev e = i) (events s) = Some k"
    and vd: "valid_date_spec (date (merged (events s ! k) a b c d l))"
    and vt: "isValidTime (time (merged (events s ! k) a b c d l))"
    and nd: "\<forall>x\<in>set ((events s)[k := merged (events s ! k) a b c d l]).
               id_ev x \<noteq> i \<longrightarrow> \<not> same_triple x (merged (events s ! k) a b c d l)"
    and v: "valid_times (events s)"
    and x: "x \<in> set ((events s)[k := merged (events s ! k) a b c d l])" "id_ev x \<noteq> i"
    and o: "overlapping (merged (events s ! k) a b c d l) x"
  shows "\<exists>n sl. editEventById i a b c d l s = Inr (ConflictAfterEdit n sl, s)"
proof -
  let ?e = "merged (events s ! k) a b c d l"
  let ?s1 = "s\<lparr>events := (events s)[k := ?e]\<rparr>"
  from find_if_Some[OF f] have ki: "id_ev (events s ! k) = i" by simp
  have v1: "valid_times (events ?s1)"
    using v vt set_update_subset_insert[of "events s" k ?e]
    by (auto simp: valid_times_def list_all_iff)
  from conflict_scan_finds[OF vt v1, of x "\<lambda>ex. id_ev ex \<noteq> i"] x o
  obtain ex where ex: "conflict_scan (\<lambda>ex. id_ev ex \<noteq> i) ?e (events ?s1) = Inr (Some ex)" by auto
  from suggestSlots_total[OF v1] obtain sl where sl: "suggestSlots (date ?e) 60 ?s1 = Inr sl"
    by blast
  have nd': "\<not> list_ex (\<lambda>ex. id_ev ex \<noteq> i \<and> iequals (name ex) (name ?e) \<and> date ex = date ?e
                 \<and> time ex = time ?e) (events ?s1)"
    using nd by (auto simp: list_ex_iff same_triple_def)
  show ?thesis
    using f vd vt nd' ex sl ki
    by (simp add: editEventById_def isValidDate_eq Let_def)
qed

lemma two_events_edits:
  "editEventById 2 [] ''31-02-2030'' [] [] [] two_events = Inr (InvalidDateTime, two_events)"
  "editEventById 2 ''KICKOFF'' [] ''09:00'' [] [] two_events = Inr (DuplicateAfterEdit, two_events)"
  "editEventById 2 [] [] ''09:30'' [] [] two_events =
     Inr (ConflictAfterEdit 1
            [(''08:00'', ''09:00''), (''10:30'', ''11:30''), (''11:00'', ''12:00''),
             (''11:30'', ''12:30''), (''12:00'', ''13:00'')],
          two_events)"
  unfolding two_events_def kickoff_def by code_simp+

lemma two_events_valid_times: "valid_times (events two_events)"
  unfolding two_events_def kickoff_def by code_simp

text \<open>
  C3. An edit of a store whose events have valid times returns; and whenever an edit
  returns with one of its three checks failed (date or time invalid after the merge, a
  duplicate among the other events, a conflict with another event), the store it
  leaves is the store it was given, value for value.
\<close>

theorem failed_edit_restores_store:
  "(valid_times (events s) \<longrightarrow> (\<exists>st s'. editEventById i a b c d l s = Inr (st, s')))
   \<and> (\<forall>st s'. editEventById i a b c d l s = Inr (st, s') \<and> edit_check_failed st \<longrightarrow> s' = s)"
proof (intro conjI impI allI)
  assume "valid_times (events s)"
  then show "\<exists>st s'. editEventById i a b c d l s = Inr (st, s')" by (rule edit_total)
next
  fix st s' assume a: "editEventById i a b c d l s = Inr (st, s') \<and> edit_check_failed st"
  then have "st \<noteq> Updated" by auto
  with a show "s' = s" using edit_failure by blast
qed

theorem failed_edit_restores_store_witness:
  "valid_times (events two_events)
   \<and> editEventById 2 [] ''31-02-2030'' [] [] [] two_events = Inr (InvalidDateTime, two_events)
   \<and> editEventById 2 ''KICKOFF'' [] ''09:00'' [] [] two_events
       = Inr (DuplicateAfterEdit, two_events)
   \<and> editEventById 2 [] [] ''09:30'' [] [] two_events =
       Inr (ConflictAfterEdit 1
              [(''08:00'', ''09:00''), (''10:30'', ''11:30''), (''11:00'', ''12:00''),
               (''11:30'', ''12:30''), (''12:00'', ''13:00'')],
            two_events)"
proof -
  from failed_edit_restores_store[of two_events 2 "[]" "[]" "''09:30''" "[]" "[]"]
    two_events_valid_times
  obtain st s' where r: "editEventById 2 [] [] ''09:30'' [] [] two_events = Inr (st, s')"
    and same: "edit_check_failed st \<longrightarrow> s' = two_events" by blast
  from r two_events_edits(3) have "edit_check_failed st" by auto
  with same r have "editEventById 2 [] [] ''09:30'' [] [] two_events = Inr (st, two_events)"
    by simp
  with two_events_edits two_events_valid_times show ?thesis by simp
qed

subsection \<open>Lists of events\<close>

lemma each_pair_sorted_wrt: "each_pair P xs = sorted_wrt P xs"
  by (induction xs) (auto simp: list_all_iff)

lemma each_pair_snoc:
  "each_pair P (xs @ [y]) \<longleftrightarrow> each_pair P xs \<and> (\<forall>x\<in>set xs. P x y)"
  by (auto simp: each_pair_sorted_wrt sorted_wrt_append)

lemma each_pair_filter: "each_pair P xs \<Longrightarrow> each_pair P (filter Q xs)"
  by (simp add: each_pair_sorted_wrt sorted_wrt_filter)

lemma each_pair_update:
  assumes "each_pair P xs" and sym: "\<And>a b. P a b \<Longrightarrow> P b a"
    and new: "\<And>j. j < length xs \<Longrightarrow> j \<noteq> k \<Longrightarrow> P y (xs ! j)"
  shows "each_pair P (xs[k := y])"
  unfolding each_pair_sorted_wrt sorted_wrt_iff_nth_less
proof (intro allI impI)
  fix i j assume ij: "i < j" and j: "j < length (xs[k := y])"
  from assms(1) have old: "\<And>i j. i < j \<Longrightarrow> j < length xs \<Longrightarrow> P (xs ! i) (xs ! j)"
    by (simp add: each_pair_sorted_wrt sorted_wrt_iff_nth_less)
  show "P (xs[k := y] ! i) (xs[k := y] ! j)"
  proof (cases "i = k")
    case True
    with ij j show ?thesis using new[of j] by (simp add: nth_list_update)
  next
    case False
    note ik = this
    show ?thesis
    proof (cases "j = k")
      case True
      with ij j ik show ?thesis using sym[OF new[of i]] by (simp add: nth_list_update)
    next
      case False
      with ij j ik show ?thesis using old[of i j] by (simp add: nth_list_update)
    qed
  qed
qed

lemma isDuplicate_iff:
  "isDuplicate nm dt tm s
     \<longleftrightarrow> (\<exists>x\<in>set (events s). same_triple x (new_event i nm dt tm ty loc))"
  by (auto simp: isDuplicate_def list_ex_iff same_triple_def new_event_def)

lemma map_id_update:
  "k < length xs \<Longrightarrow> id_ev y = id_ev (xs ! k) \<Longrightarrow> map id_ev (xs[k := y]) = map id_ev xs"
  by (simp add: map_update list_update_same_conv)

subsection \<open>What each operation keeps\<close>

lemma add_ids_fresh:
  assumes "addEvent nm dt tm ty loc verbose s = Inr (st, s')" and "ids_fresh s"
  shows "ids_fresh s'"
  using addEvent_cases[OF assms(1)] assms(2)
  by (fastforce simp: ids_fresh_def list_all_iff new_event_def)

lemma add_ids_positive:
  assumes "addEvent nm dt tm ty loc verbose s = Inr (st, s')" and "ids_positive s"
  shows "ids_positive s'"
  using addEvent_cases[OF assms(1)] assms(2)
  by (fastforce simp: ids_positive_def list_all_iff new_event_def)

lemma add_schedule_ok:
  assumes a: "addEvent nm dt tm ty loc verbose s = Inr (st, s')" and ok: "schedule_ok s"
  shows "schedule_ok s'"
proof -
  let ?e = "new_event (nextId s) nm dt tm ty loc"
  from addEvent_cases[OF a]
  consider "events s' = events s"
    | "valid_date_spec dt" "isValidTime tm" "\<not> isDuplicate nm dt tm s"
      "conflict_scan (\<lambda>ex. True) ?e (events s) = Inr None" "events s' = events s @ [?e]"
    by auto
  then show ?thesis
  proof cases
    case 1
    with ok show ?thesis by (simp add: schedule_ok_def)
  next
    case 2
    from ok have v: "\<And>x. x \<in> set (events s) \<Longrightarrow> isValidTime (time x)"
      by (simp add: schedule_ok_def all_valid_def list_all_iff)
    have ve: "isValidTime (time ?e)" using 2 by (simp add: new_event_def)
    have nd: "\<forall>x\<in>set (events s). \<not> same_triple x ?e"
      using 2(3) isDuplicate_iff[of nm dt tm s "nextId s" ty loc] by simp
    have nc: "\<forall>x\<in>set (events s). \<not> overlapping x ?e"
    proof
      fix x assume x: "x \<in> set (events s)"
      from conflict_scan_None[OF 2(4) x] have "conflicts ?e x = Inr False" by simp
      with conflicts_valid[OF ve v[OF x]] have "\<not> overlapping ?e x" by simp
      then show "\<not> overlapping x ?e" using overlapping_sym by blast
    qed
    from ok 2 nd nc show ?thesis
      by (simp add: schedule_ok_def all_valid_def no_duplicates_def no_conflicts_def
            each_pair_snoc new_event_def)
  qed
qed

lemma edit_events:
  assumes "editEventById i a b c d l s = Inr (st, s')"
  shows "nextId s' = nextId s \<and> map id_ev (events s') = map id_ev (events s)"
proof (cases "st = Updated")
  case False
  with edit_failure[OF assms] show ?thesis by simp
next
  case True
  with edit_success assms obtain k where k: "find_if (\<lambda>e. id_ev e = i) (events s) = Some k"
    and s': "s' = s\<lparr>events := (events s)[k := merged (events s ! k) a b c d l]\<rparr>"
    by blast
  from find_if_Some[OF k] have "k < length (events s)" by simp
  then show ?thesis unfolding s' by (simp add: map_id_update)
qed

lemma edit_ids_fresh:
  assumes "editEventById i a b c d l s = Inr (st, s')" and "ids_fresh s"
  shows "ids_fresh s'"
proof -
  from edit_events[OF assms(1)] have n: "nextId s' = nextId s"
    and m: "map id_ev (events s') = map id_ev (events s)" by simp_all
  have "list_all (\<lambda>e. id_ev e < nextId s) (events s')
          = list_all (\<lambda>x. x < nextId s) (map id_ev (events s'))"
    by (simp add: list_all_iff)
  also have "\<dots> = list_all (\<lambda>e. id_ev e < nextId s) (events s)"
    unfolding m by (simp add: list_all_iff)
  finally show ?thesis using assms(2) by (simp add: ids_fresh_def n m)
qed

lemma edit_ids_positive:
  assumes "editEventById i a b c d l s = Inr (st, s')" and "ids_positive s"
  shows "ids_positive s'"
proof -
  from edit_events[OF assms(1)] have n: "nextId s' = nextId s"
    and m: "map id_ev (events s') = map id_ev (events s)" by simp_all
  have "list_all (\<lambda>e. 0 < id_ev e) (events s') = list_all (\<lambda>x. 0 < x) (map id_ev (events s'))"
    by (simp add: list_all_iff)
  also have "\<dots> = list_all (\<lambda>e. 0 < id_ev e) (events s)"
    unfolding m by (simp add: list_all_iff)
  finally show ?thesis using assms(2) by (simp add: ids_positive_def n)
qed

lemma edit_schedule_ok:
  assumes ed: "editEventById i a b c d l s = Inr (st, s')" and ok: "schedule_ok s"
    and fr: "ids_fresh s"
  shows "schedule_ok s'"
proof (cases "st = Updated")
  case False
  with edit_failure[OF ed] ok show ?thesis by simp
next
  case True
  from True edit_success ed obtain k where k: "find_if (\<lambda>e. id_ev e = i) (events s) = Some k"
    and s': "s' = s\<lparr>events := (events s)[k := merged (events s ! k) a b c d l]\<rparr>"
    and vd: "valid_date_spec (date (merged (events s ! k) a b c d l))"
    and vt: "isValidTime (time (merged (events s ! k) a b c d l))"
    and nd: "\<not> list_ex (\<lambda>ex. id_ev ex \<noteq> i \<and> same_triple ex (merged (events s ! k) a b c d l))
                 (events s')"
    and nc: "conflict_scan (\<lambda>ex. id_ev ex \<noteq> i) (merged (events s ! k) a b c d l) (events s')
               = Inr None"
    by blast
  let ?e = "merged (events s ! k) a b c d l"
  let ?es = "events s"
  from find_if_Some[OF k] have kl: "k < length ?es" and ki: "id_ev (?es ! k) = i" by simp_all
  have es': "events s' = ?es[k := ?e]" by (simp add: s')
  from fr have dist: "distinct (map id_ev ?es)" by (simp add: ids_fresh_def)
  have other: "\<And>j. j < length ?es \<Longrightarrow> j \<noteq> k
                 \<Longrightarrow> ?es ! j \<in> set (events s') \<and> id_ev (?es ! j) \<noteq> i"
  proof -
    fix j assume j: "j < length ?es" and jk: "j \<noteq> k"
    have "?es[k := ?e] ! j = ?es ! j" using jk by simp
    then have "?es ! j \<in> set (events s')" unfolding es' using j
      by (metis length_list_update nth_mem)
    moreover have "id_ev (?es ! j) \<noteq> i"
    proof
      assume "id_ev (?es ! j) = i"
      with ki nth_eq_iff_index_eq[OF dist, of j k] j kl jk show False by simp
    qed
    ultimately show "?es ! j \<in> set (events s') \<and> id_ev (?es ! j) \<noteq> i" by simp
  qed
  from ok have valid: "all_valid ?es" and nodup: "no_duplicates ?es" and noconf: "no_conflicts ?es"
    by (simp_all add: schedule_ok_def)
  have valid': "all_valid (events s')"
    unfolding es' using valid vd vt set_update_subset_insert[of ?es k ?e]
    by (auto simp: all_valid_def list_all_iff)
  have "no_duplicates (events s')"
    unfolding es' no_duplicates_def
  proof (rule each_pair_update)
    show "each_pair (\<lambda>a b. \<not> same_triple a b) ?es" using nodup by (simp add: no_duplicates_def)
    show "\<And>a b. \<not> same_triple a b \<Longrightarrow> \<not> same_triple b a" using same_triple_sym by blast
    fix j assume j: "j < length ?es" "j \<noteq> k"
    from other[OF j] nd have "\<not> same_triple (?es ! j) ?e" by (auto simp: list_ex_iff)
    then show "\<not> same_triple ?e (?es ! j)" using same_triple_sym by blast
  qed
  moreover have "no_conflicts (events s')"
    unfolding es' no_conflicts_def
  proof (rule each_pair_update)
    show "each_pair (\<lambda>a b. \<not> overlapping a b) ?es" using noconf by (simp add: no_conflicts_def)
    show "\<And>a b. \<not> overlapping a b \<Longrightarrow> \<not> overlapping b a" using overlapping_sym by blast
    fix j assume j: "j < length ?es" "j \<noteq> k"
    from other[OF j] have mem: "?es ! j \<in> set (events s')" and ne: "id_ev (?es ! j) \<noteq> i"
      by simp_all
    from conflict_scan_None[OF nc mem] ne have "conflicts ?e (?es ! j) = Inr False" by simp
    moreover from valid' mem have "isValidTime (time (?es ! j))"
      by (auto simp: all_valid_def list_all_iff)
    ultimately show "\<not> overlapping ?e (?es ! j)" using conflicts_valid[OF vt] by simp
  qed
  ultimately show ?thesis using valid' by (simp add: schedule_ok_def)
qed

lemma filter_ids_fresh: "ids_fresh s \<Longrightarrow> ids_fresh (s\<lparr>events := filter Q (events s)\<rparr>)"
  by (auto simp: ids_fresh_def list_all_iff distinct_map_filter)

lemma filter_ids_positive: "ids_positive s \<Longrightarrow> ids_positive (s\<lparr>events := filter Q (events s)\<rparr>)"
  by (auto simp: ids_positive_def list_all_iff)

lemma filter_schedule_ok: "schedule_ok s \<Longrightarrow> schedule_ok (s\<lparr>events := filter Q (events s)\<rparr>)"
  by (auto simp: schedule_ok_def all_valid_def list_all_iff no_duplicates_def no_conflicts_def
        each_pair_filter)

lemma deleteById_events:
  "deleteById i s = (b, s') \<Longrightarrow> s' = s\<lparr>events := filter (\<lambda>e. id_ev e \<noteq> i) (events s)\<rparr>"
  by (auto simp: deleteById_def Let_def)

lemma deleteByName_events:
  "deleteByName nm s = (b, s')
     \<Longrightarrow> s' = s\<lparr>events := filter (\<lambda>e. \<not> iequals (name e) nm) (events s)\<rparr>"
  by (auto simp: deleteByName_def Let_def)

subsection \<open>importSnapshotCSV\<close>

lemma import_loop_rows:
  "import_loop lines first temp mx = Inr (temp', mx') \<Longrightarrow> all_valid temp
     \<Longrightarrow> list_all (\<lambda>e. id_ev e \<le> mx) temp
     \<Longrightarrow> all_valid temp' \<and> list_all (\<lambda>e. id_ev e \<le> mx') temp' \<and> mx \<le> mx'"
proof (induction lines first temp mx rule: import_loop.induct)
  case (1 first temp maxId)
  then show ?case by simp
next
  case (2 line rest first temp maxId)
  show ?case
  proof (cases "line = []")
    case True
    with 2 show ?thesis by simp
  next
    case ne: False
    show ?thesis
    proof (cases "string_find line '',''")
      case False
      with ne 2 show ?thesis by simp
    next
      case comma: True
      show ?thesis
      proof (cases "first \<and> string_find (toLower line) ''id,name,date,time,type,location''")
        case True
        with ne comma 2 show ?thesis by simp
      next
        case nh: False
        from "2.prems"(1) ne comma nh obtain e where
          e: "assign_cols 0 (getline_tokens line) default_event = Inr e"
          and rest: "(if id_ev e = 0 \<or> name e = [] then import_loop rest False temp maxId
             else if \<not> valid_date_spec (date e) \<or> \<not> isValidTime (time e)
               then import_loop rest False temp maxId
             else import_loop rest False (temp @ [e]) (max maxId (id_ev e))) = Inr (temp', mx')"
          by (auto simp: andThen_eq_Inr isValidDate_eq split: if_splits)
        show ?thesis
        proof (cases "id_ev e = 0 \<or> name e = []")
          case True
          with rest have "import_loop rest False temp maxId = Inr (temp', mx')" by simp
          with "2.IH"(3)[of e] ne comma nh True "2.prems"(2,3) show ?thesis by simp
        next
          case ok: False
          show ?thesis
          proof (cases "\<not> valid_date_spec (date e) \<or> \<not> isValidTime (time e)")
            case True
            with rest ok have r: "import_loop rest False temp maxId = Inr (temp', mx')" by simp
            with "2.IH"(4)[of e "valid_date_spec (date e)"] ne comma nh ok True "2.prems"(2,3)
            show ?thesis by simp
          next
            case False
            with rest ok
            have r: "import_loop rest False (temp @ [e]) (max maxId (id_ev e)) = Inr (temp', mx')"
              by simp
            have v: "all_valid (temp @ [e])" using "2.prems"(2) False by (simp add: all_valid_def)
            have b: "list_all (\<lambda>x. id_ev x \<le> max maxId (id_ev e)) (temp @ [e])"
              using "2.prems"(3) by (auto simp: list_all_iff)
            from "2.IH"(5)[of e "valid_date_spec (date e)"] ne comma nh ok False r v b
            show ?thesis by simp
          qed
        qed
      qed
    qed
  qed
qed

lemma import_rows_valid:
  assumes "import_loop lines True [] 0 = Inr (temp, mx)"
  shows "all_valid temp \<and> list_all (\<lambda>e. id_ev e < mx + 1) temp \<and> 0 \<le> mx"
proof -
  from import_loop_rows[OF assms]
  have "all_valid temp" "list_all (\<lambda>e. id_ev e \<le> mx) temp" "0 \<le> mx"
    by (simp_all add: all_valid_def)
  then show ?thesis by (auto simp: list_all_iff)
qed

text \<open>
  When the import returns: nothing accepted and the store as it was, or the store
  replaced by the accepted rows and the counter one above the largest of 0 and their
  ids.
\<close>

lemma import_effect:
  assumes "importSnapshotCSV lines s = Inr (st, s')"
  shows "\<exists>temp mx. import_loop lines True [] 0 = Inr (temp, mx)
           \<and> ((temp = [] \<and> st = NothingImported \<and> s' = s)
              \<or> (temp \<noteq> [] \<and> mx \<noteq> INT_MAX \<and> st = Imported (length temp) (mx + 1)
                  \<and> s' = s\<lparr>events := temp, nextId := mx + 1\<rparr>))"
  using assms
  by (auto simp: importSnapshotCSV_def andThen_eq_Inr Let_def split: if_splits)

text \<open>
  C6 (the code departs from the claim). A pasted line with a comma, not taken for the
  header, whose first field is not empty and is refused by \<^verbatim>\<open>std::stoi\<close>, ends the import
  with the exception \<^verbatim>\<open>std::stoi\<close> throws, whatever the store and the lines after it:
  the row is not skipped, and nothing catches the exception.
\<close>

theorem import_faults_on_unreadable_id:
  assumes "line \<noteq> []" and "string_find line '',''"
    and "\<not> string_find (toLower line) ''id,name,date,time,type,location''"
    and "takeWhile (\<lambda>x. x \<noteq> CHR '','') line \<noteq> []"
    and "stoi (takeWhile (\<lambda>x. x \<noteq> CHR '','') line) = Inl f"
  shows "importSnapshotCSV (line # rest) s = Inl f"
proof -
  from assms(1) obtain c cs where l: "line = c # cs" by (cases line) auto
  have "assign_cols 0 (getline_tokens line) default_event = Inl f"
    using assms(4,5) unfolding l by simp
  with assms(1-3) show ?thesis
    by (simp add: importSnapshotCSV_def)
qed

theorem import_faults_on_unreadable_id_witness:
  "importSnapshotCSV [''x,Party,01-01-2030,09:00,Talk,Hall''] two_events = Inl InvalidArgument
   \<and> importSnapshotCSV [''4,Talk,31-01-2030,09:00,Talk,Hall'', ''99999999999,Big,31-01-2030,12:00,Talk,Hall'']
        two_events = Inl OutOfRange"
proof -
  have 1: "importSnapshotCSV [''x,Party,01-01-2030,09:00,Talk,Hall''] two_events
             = Inl InvalidArgument"
    by (rule import_faults_on_unreadable_id) code_simp+
  have 2: "importSnapshotCSV
             [''4,Talk,31-01-2030,09:00,Talk,Hall'', ''99999999999,Big,31-01-2030,12:00,Talk,Hall'']
             two_events = Inl OutOfRange"
    unfolding two_events_def kickoff_def by code_simp
  from 1 2 show ?thesis by simp
qed

text \<open>What the import does with lines it can read: the snapshot of the examples.\<close>

lemma snapshot_import_loop: "import_loop snapshot_rows True [] 0 = Inr (snapshot_events, 7)"
  unfolding snapshot_rows_def snapshot_events_def by code_simp

lemma snapshot_import:
  "importSnapshotCSV snapshot_rows two_events = Inr (Imported 2 8, snapshot_store)"
  unfolding snapshot_rows_def snapshot_events_def snapshot_store_def two_events_def kickoff_def
  by code_simp

lemma snapshot_add:
  "addEvent ''Review'' ''01-02-2030'' ''10:00'' ''Talk'' [] False snapshot_store
     = Inr (Added 8, snapshot_store_plus)"
  unfolding snapshot_store_def snapshot_store_plus_def snapshot_events_def by code_simp

lemma twin_import_loop: "import_loop twin_rows True [] 0 = Inr (events twin_store, 2)"
  unfolding twin_rows_def twin_store_def by code_simp

lemma twin_import: "importSnapshotCSV twin_rows initial = Inr (Imported 2 3, twin_store)"
  unfolding twin_rows_def twin_store_def by code_simp

lemma same_id_import_loop: "import_loop same_id_rows True [] 0 = Inr (events same_id_store, 1)"
  unfolding same_id_rows_def same_id_store_def by code_simp

lemma same_id_import: "importSnapshotCSV same_id_rows initial = Inr (Imported 3 2, same_id_store)"
  unfolding same_id_rows_def same_id_store_def by code_simp

subsection \<open>Committed states\<close>

text \<open>
  Where the counter does not overflow the wrapping operations are \<open>addEvent\<close> and
  \<open>importSnapshotCSV\<close>, and every return of these two is a return of the wrapping ones.
\<close>

lemma addEvent_wrapping_eq:
  "nextId s \<noteq> INT_MAX
     \<Longrightarrow> addEvent_wrapping nm dt tm ty loc verbose s = addEvent nm dt tm ty loc verbose s"
  by (simp add: addEvent_wrapping_def addEvent_def wrapping_succ_def isValidDate_eq Let_def)

lemma addEvent_wrapping_Inr:
  assumes "addEvent nm dt tm ty loc verbose s = Inr r"
  shows "addEvent_wrapping nm dt tm ty loc verbose s = Inr r"
proof (cases "nextId s = INT_MAX")
  case False
  with assms show ?thesis by (simp add: addEvent_wrapping_eq)
next
  case True
  with assms show ?thesis
    by (auto simp: addEvent_wrapping_def addEvent_def isValidDate_eq Let_def split: if_splits)
qed

lemma importSnapshotCSV_wrapping_Inr:
  "importSnapshotCSV lines s = Inr r \<Longrightarrow> importSnapshotCSV_wrapping lines s = Inr r"
  by (auto simp: importSnapshotCSV_def importSnapshotCSV_wrapping_def wrapping_succ_def
        andThen_eq_Inr Let_def split: if_splits)

lemma reachable_Wraps: "reachable ov G s \<Longrightarrow> reachable Wraps G s"
proof (induction rule: reachable.induct)
  case start
  show ?case by (rule reachable.start)
next
  case (add s nm dt tm ty loc verbose st s')
  then show ?case using reachable.add by blast
next
  case (add_wrapping s nm dt tm ty loc verbose st s')
  then show ?case using reachable.add_wrapping by blast
next
  case (edit s i in_name in_date in_time in_type in_location est s')
  then show ?case using reachable.edit by blast
next
  case (delete_id s i b s')
  then show ?case using reachable.delete_id by blast
next
  case (delete_name s nm b s')
  then show ?case using reachable.delete_name by blast
next
  case (import s lines temp maxId ist s')
  then show ?case using reachable.import by blast
next
  case (import_wrapping s lines temp maxId ist s')
  then show ?case using reachable.import_wrapping by blast
qed

lemma reachable_ids_fresh:
  assumes G: "\<And>rows. G rows \<Longrightarrow> distinct (map id_ev rows)"
  shows "reachable NoOverflow G s \<Longrightarrow> ids_fresh s"
proof (induction rule: reachable.induct)
  case start
  show ?case by (simp add: ids_fresh_def initial_def)
next
  case (add s nm dt tm ty loc verbose st s')
  then show ?case using add_ids_fresh by blast
next
  case (add_wrapping s nm dt tm ty loc verbose st s')
  then show ?case by simp
next
  case (edit s i in_name in_date in_time in_type in_location est s')
  then show ?case using edit_ids_fresh by blast
next
  case (delete_id s i b s')
  then show ?case using deleteById_events filter_ids_fresh by blast
next
  case (delete_name s nm b s')
  then show ?case using deleteByName_events filter_ids_fresh by blast
next
  case (import s lines temp maxId ist s')
  from import_effect[OF import.hyps(4)] import.hyps(2)
  consider "s' = s" | "s' = s\<lparr>events := temp, nextId := maxId + 1\<rparr>" by auto
  then show ?case
  proof cases
    case 1
    with import.IH show ?thesis by simp
  next
    case 2
    with G[OF import.hyps(3)] import_rows_valid[OF import.hyps(2)] show ?thesis
      by (simp add: ids_fresh_def)
  qed
next
  case (import_wrapping s lines temp maxId ist s')
  then show ?case by simp
qed

lemma reachable_ids_positive:
  assumes G: "\<And>rows. G rows \<Longrightarrow> list_all (\<lambda>e. 0 < id_ev e) rows"
  shows "reachable NoOverflow G s \<Longrightarrow> ids_positive s"
proof (induction rule: reachable.induct)
  case start
  show ?case by (simp add: ids_positive_def initial_def)
next
  case (add s nm dt tm ty loc verbose st s')
  then show ?case using add_ids_positive by blast
next
  case (add_wrapping s nm dt tm ty loc verbose st s')
  then show ?case by simp
next
  case (edit s i in_name in_date in_time in_type in_location est s')
  then show ?case using edit_ids_positive by blast
next
  case (delete_id s i b s')
  then show ?case using deleteById_events filter_ids_positive by blast
next
  case (delete_name s nm b s')
  then show ?case using deleteByName_events filter_ids_positive by blast
next
  case (import s lines temp maxId ist s')
  from import_effect[OF import.hyps(4)] import.hyps(2)
  consider "s' = s" | "s' = s\<lparr>events := temp, nextId := maxId + 1\<rparr>" by auto
  then show ?case
  proof cases
    case 1
    with import.IH show ?thesis by simp
  next
    case 2
    with G[OF import.hyps(3)] import_rows_valid[OF import.hyps(2)] show ?thesis
      by (simp add: ids_positive_def)
  qed
next
  case (import_wrapping s lines temp maxId ist s')
  then show ?case by simp
qed

lemma reachable_schedule_ok:
  assumes G: "\<And>rows. G rows
                \<Longrightarrow> distinct (map id_ev rows) \<and> no_duplicates rows \<and> no_conflicts rows"
  shows "reachable NoOverflow G s \<Longrightarrow> schedule_ok s"
proof (induction rule: reachable.induct)
  case start
  show ?case
    by (simp add: schedule_ok_def initial_def all_valid_def no_duplicates_def no_conflicts_def)
next
  case (add s nm dt tm ty loc verbose st s')
  then show ?case using add_schedule_ok by blast
next
  case (add_wrapping s nm dt tm ty loc verbose st s')
  then show ?case by simp
next
  case (edit s i in_name in_date in_time in_type in_location est s')
  from reachable_ids_fresh[of G, OF _ edit.hyps(1)] G have "ids_fresh s" by blast
  with edit show ?case using edit_schedule_ok by blast
next
  case (delete_id s i b s')
  then show ?case using deleteById_events filter_schedule_ok by blast
next
  case (delete_name s nm b s')
  then show ?case using deleteByName_events filter_schedule_ok by blast
next
  case (import s lines temp maxId ist s')
  from import_effect[OF import.hyps(4)] import.hyps(2)
  consider "s' = s" | "s' = s\<lparr>events := temp, nextId := maxId + 1\<rparr>" by auto
  then show ?case
  proof cases
    case 1
    with import.IH show ?thesis by simp
  next
    case 2
    with G[OF import.hyps(3)] import_rows_valid[OF import.hyps(2)] show ?thesis
      by (simp add: schedule_ok_def)
  qed
next
  case (import_wrapping s lines temp maxId ist s')
  then show ?case by simp
qed

text \<open>
  A state reached by two adds, an import of the example snapshot and one more add,
  whatever imports are allowed as long as this snapshot is; no counter overflows on the
  way.
\<close>

lemma snapshot_store_plus_reachable:
  assumes "G snapshot_events"
  shows "reachable ov G snapshot_store_plus"
proof -
  have 1: "reachable ov G one_event"
    using reachable.add[OF reachable.start, of "''Kickoff''" "''01-01-2030''" "''09:00''"
        "''Meeting''" "''Hall A''" True "Added 1" one_event ov G]
      first_add[of "''Kickoff''" "''Meeting''" "''Hall A''" True]
    by (simp add: one_event_def kickoff_def)
  have 2: "reachable ov G two_events"
    using reachable.add[OF 1, of "''Standup''" "''01-01-2030''" "''10:00''" "''Meeting''"
        "''Hall A''" True "Added 2" two_events]
      second_add[of "''Standup''" "''Meeting''" "''Hall A''" True "''Kickoff''" "''Meeting''"
        "''Hall A''"]
    by (simp add: one_event_def two_events_def kickoff_def)
  have 3: "reachable ov G snapshot_store"
    by (rule reachable.import[OF 2 snapshot_import_loop assms snapshot_import])
  show ?thesis by (rule reachable.add[OF 3 snapshot_add])
qed

lemma snapshot_coherent: "coherent_snapshot snapshot_events"
  unfolding snapshot_events_def by code_simp

lemma snapshot_ids_ok: "live_ids_ok snapshot_events"
  unfolding snapshot_events_def by code_simp

subsection \<open>What the wrapped counter does to the rules\<close>

text \<open>
  An import of the one row with the id \<^verbatim>\<open>INT_MAX\<close>, a positive id that comes once: the
  counter wraps to \<^verbatim>\<open>INT_MIN\<close>, the live id is not below it, and the next add gets a
  negative id.
\<close>

lemma max_id_import_loop:
  "import_loop max_id_rows True [] 0 = Inr (events max_id_store, 2147483647)"
  unfolding max_id_rows_def max_id_store_def by code_simp

lemma max_id_import_faults: "importSnapshotCSV max_id_rows initial = Inl SignedOverflow"
  unfolding max_id_rows_def by code_simp

lemma max_id_import_wraps:
  "importSnapshotCSV_wrapping max_id_rows initial
     = Inr (Imported 1 (- 2147483648), max_id_store)"
  unfolding max_id_rows_def max_id_store_def by code_simp

lemma max_id_add_wraps:
  "addEvent_wrapping ''B'' ''01-01-2030'' ''11:00'' ''T'' ''L'' False max_id_store
     = Inr (Added (- 2147483648), max_id_store_plus)"
  unfolding max_id_store_def max_id_store_plus_def by code_simp

lemma wrapped_counter_breaks_id_rule:
  "live_ids_ok (events max_id_store) \<and> reachable Wraps live_ids_ok max_id_store
   \<and> \<not> ids_fresh max_id_store
   \<and> reachable Wraps live_ids_ok max_id_store_plus \<and> \<not> live_ids_ok (events max_id_store_plus)"
proof -
  have ok: "live_ids_ok (events max_id_store)"
    unfolding max_id_store_def by code_simp
  have 1: "reachable Wraps live_ids_ok max_id_store"
    by (rule reachable.import_wrapping[where G = live_ids_ok,
          OF reachable.start refl max_id_import_loop ok max_id_import_wraps])
  have 2: "reachable Wraps live_ids_ok max_id_store_plus"
    by (rule reachable.add_wrapping[OF 1 refl max_id_add_wraps])
  have 3: "\<not> ids_fresh max_id_store"
    unfolding max_id_store_def by code_simp
  have 4: "\<not> live_ids_ok (events max_id_store_plus)"
    unfolding max_id_store_plus_def by code_simp
  from ok 1 2 3 4 show ?thesis by simp
qed

text \<open>
  An import of two rows with the ids \<^verbatim>\<open>INT_MAX\<close> and \<^verbatim>\<open>INT_MIN\<close>, a coherent snapshot: the
  counter wraps onto the live id \<^verbatim>\<open>INT_MIN\<close>, the next add hands that id out again, and
  an edit of that id, whose checks pass over every event with the id, commits a
  duplicate that is a conflict too.
\<close>

lemma both_ends_import_loop:
  "import_loop both_ends_rows True [] 0 = Inr (events both_ends_store, 2147483647)"
  unfolding both_ends_rows_def both_ends_store_def by code_simp

lemma both_ends_import_wraps:
  "importSnapshotCSV_wrapping both_ends_rows initial
     = Inr (Imported 2 (- 2147483648), both_ends_store)"
  unfolding both_ends_rows_def both_ends_store_def by code_simp

lemma both_ends_add_wraps:
  "addEvent_wrapping ''C'' ''01-01-2030'' ''13:00'' ''T'' ''L'' False both_ends_store
     = Inr (Added (- 2147483648), both_ends_store_plus)"
  unfolding both_ends_store_def both_ends_store_plus_def by code_simp

lemma both_ends_edit:
  "editEventById (- 2147483648) ''C'' [] ''13:00'' [] [] both_ends_store_plus
     = Inr (Updated, both_ends_store_edited)"
  unfolding both_ends_store_plus_def both_ends_store_edited_def by code_simp

lemma wrapped_counter_breaks_schedule_rules:
  "coherent_snapshot (events both_ends_store)
   \<and> reachable Wraps coherent_snapshot both_ends_store_edited
   \<and> \<not> no_duplicates (events both_ends_store_edited)
   \<and> \<not> no_conflicts (events both_ends_store_edited)"
proof -
  have ok: "coherent_snapshot (events both_ends_store)"
    unfolding both_ends_store_def by code_simp
  have 1: "reachable Wraps coherent_snapshot both_ends_store"
    by (rule reachable.import_wrapping[where G = coherent_snapshot,
          OF reachable.start refl both_ends_import_loop ok both_ends_import_wraps])
  have 2: "reachable Wraps coherent_snapshot both_ends_store_plus"
    by (rule reachable.add_wrapping[OF 1 refl both_ends_add_wraps])
  have 3: "reachable Wraps coherent_snapshot both_ends_store_edited"
    by (rule reachable.edit[OF 2 both_ends_edit])
  have 4: "\<not> no_duplicates (events both_ends_store_edited)"
    unfolding both_ends_store_edited_def by code_simp
  have 5: "\<not> no_conflicts (events both_ends_store_edited)"
    unfolding both_ends_store_edited_def by code_simp
  from ok 3 4 5 show ?thesis by simp
qed

subsection \<open>The rules in committed states\<close>

text \<open>
  C2 (amended). In every committed state reached from the initial store by adds,
  edits, deletes and imports, in a run in which no operation overflows the id counter
  (no add gets to \<^verbatim>\<open>nextId++\<close> with the counter at 2147483647, no import accepts the id
  2147483647) and every import's accepted rows have no id twice, no triple twice and no
  two overlapping windows on one date: every live event has a valid date and time, no
  two live events have the same triple (name without case, date, time), and no two
  live events on one date have overlapping windows \<open>[start, start + 60)\<close>. With a
  counter that wraps the rules can break (\<open>wrapped_counter_breaks_schedule_rules\<close>).
\<close>

theorem committed_states_keep_schedule_rules:
  "reachable NoOverflow coherent_snapshot s \<Longrightarrow>
     all_valid (events s) \<and> no_duplicates (events s) \<and> no_conflicts (events s)"
  using reachable_schedule_ok[of coherent_snapshot s]
  by (simp add: coherent_snapshot_def schedule_ok_def)

theorem committed_states_keep_schedule_rules_witness:
  "reachable NoOverflow coherent_snapshot snapshot_store_plus
   \<and> all_valid (events snapshot_store_plus) \<and> no_duplicates (events snapshot_store_plus)
   \<and> no_conflicts (events snapshot_store_plus)"
proof -
  have r: "reachable NoOverflow coherent_snapshot snapshot_store_plus"
    by (rule snapshot_store_plus_reachable[of coherent_snapshot, OF snapshot_coherent])
  from committed_states_keep_schedule_rules[OF r] r show ?thesis by simp
qed

text \<open>
  The claim as it stands fails, with no overflow in the run: the import checks neither
  rule, so two pasted rows with one triple both become live.
\<close>

theorem import_admits_duplicates_and_conflicts:
  "reachable NoOverflow any_snapshot twin_store \<and> reachable Wraps any_snapshot twin_store
   \<and> \<not> no_duplicates (events twin_store) \<and> \<not> no_conflicts (events twin_store)"
proof -
  have r: "reachable NoOverflow any_snapshot twin_store"
    using reachable.import[OF reachable.start twin_import_loop _ twin_import]
    by (simp add: any_snapshot_def)
  moreover have "reachable Wraps any_snapshot twin_store"
    by (rule reachable_Wraps[OF r])
  moreover have "\<not> no_duplicates (events twin_store)"
    unfolding twin_store_def by code_simp
  moreover have "\<not> no_conflicts (events twin_store)"
    unfolding twin_store_def by code_simp
  ultimately show ?thesis by simp
qed

text \<open>
  C7 (amended). In every committed state reached from the initial store by adds,
  edits, deletes and imports, in a run in which no operation overflows the id counter
  (no add gets to \<^verbatim>\<open>nextId++\<close> with the counter at 2147483647, no import accepts the id
  2147483647) and every import's accepted rows carry positive ids, no id twice: every
  live event's id is positive, no two live events have the same id, and every live id
  is below the id counter. With a counter that wraps the rule breaks
  (\<open>wrapped_counter_breaks_id_rule\<close>).
\<close>

theorem committed_states_keep_ids_positive_unique:
  "reachable NoOverflow live_ids_ok s \<Longrightarrow> live_ids_ok (events s) \<and> ids_fresh s"
  using reachable_ids_fresh[of live_ids_ok s] reachable_ids_positive[of live_ids_ok s]
  by (simp add: live_ids_ok_def ids_fresh_def ids_positive_def)

theorem committed_states_keep_ids_positive_unique_witness:
  "reachable NoOverflow live_ids_ok snapshot_store_plus
   \<and> live_ids_ok (events snapshot_store_plus) \<and> ids_fresh snapshot_store_plus
   \<and> map id_ev (events snapshot_store_plus) = [4, 7, 8]"
proof -
  have r: "reachable NoOverflow live_ids_ok snapshot_store_plus"
    by (rule snapshot_store_plus_reachable[of live_ids_ok, OF snapshot_ids_ok])
  have "map id_ev (events snapshot_store_plus) = [4, 7, 8]"
    by (simp add: snapshot_store_plus_def snapshot_events_def new_event_def)
  with committed_states_keep_ids_positive_unique[OF r] r show ?thesis by simp
qed

text \<open>
  The claim as it stands fails, with no overflow in the run: the import takes the ids
  from the pasted text and only refuses 0, so an id can come twice and can be negative.
\<close>

theorem import_admits_repeated_and_negative_ids:
  "reachable NoOverflow any_snapshot same_id_store \<and> reachable Wraps any_snapshot same_id_store
   \<and> map id_ev (events same_id_store) = [1, 1, - 3]
   \<and> \<not> live_ids_ok (events same_id_store)"
proof -
  have r: "reachable NoOverflow any_snapshot same_id_store"
    using reachable.import[OF reachable.start same_id_import_loop _ same_id_import]
    by (simp add: any_snapshot_def)
  moreover have "reachable Wraps any_snapshot same_id_store"
    by (rule reachable_Wraps[OF r])
  moreover have "map id_ev (events same_id_store) = [1, 1, - 3]"
    by (simp add: same_id_store_def new_event_def)
  ultimately show ?thesis by (simp add: live_ids_ok_def)
qed

subsection \<open>listAll\<close>

lemma valid_date_shape:
  "valid_date_spec d \<Longrightarrow>
     \<exists>d1 d2 m1 m2 y1 y2 y3 y4. d = [d1, d2, CHR ''-'', m1, m2, CHR ''-'', y1, y2, y3, y4]"
  by (auto simp: valid_date_spec_def date_fields_def split: list.splits option.splits if_splits)

lemma ymd_valid: "valid_date_spec d \<Longrightarrow> ymd d = Inr (ymd_key d)"
  by (auto dest!: valid_date_shape simp: ymd_def ymd_key_def substr_def)

lemma ymd_key_inj:
  "valid_date_spec d \<Longrightarrow> valid_date_spec d' \<Longrightarrow> ymd_key d = ymd_key d' \<Longrightarrow> d = d'"
  by (auto dest!: valid_date_shape simp: ymd_key_def)

lemma listAll_comp_valid:
  assumes "valid_date_spec (date a)" "isValidTime (time a)"
    "valid_date_spec (date b)" "isValidTime (time b)"
  shows "listAll_comp a b = Inr (sort_key a < sort_key b)"
proof (cases "date a = date b")
  case True
  with assms show ?thesis
    by (simp add: listAll_comp_def toMinutes_start_minute sort_key_def)
next
  case False
  with assms ymd_key_inj have "ymd_key (date a) \<noteq> ymd_key (date b)" by blast
  with False assms show ?thesis
    by (auto simp: listAll_comp_def ymd_valid sort_key_def)
qed

lemma sort_key_le:
  assumes "valid_date_spec (date a)" "valid_date_spec (date b)" "sort_key a \<le> sort_key b"
  shows "listed_before a b"
  using assms ymd_key_inj[OF assms(1,2)]
  by (auto simp: sort_key_def listed_before_def less_eq_prod_def)

lemma insert_sorted_key:
  fixes key :: "'a \<Rightarrow> 'k::linorder"
  assumes "\<forall>y\<in>set ys. lt x y = Inr (key x < key y)" and "sorted (map key ys)"
  shows "\<exists>r. insert_sorted lt x ys = Inr r \<and> mset r = add_mset x (mset ys)
             \<and> sorted (map key r)"
  using assms
proof (induction ys)
  case Nil
  show ?case by simp
next
  case (Cons y ys)
  show ?case
  proof (cases "key x < key y")
    case True
    with Cons.prems show ?thesis by auto
  next
    case False
    from Cons obtain r where r: "insert_sorted lt x ys = Inr r" "mset r = add_mset x (mset ys)"
      "sorted (map key r)" by auto
    from r(2) have "set r = insert x (set ys)"
      by (metis set_mset_add_mset_insert set_mset_mset)
    with False Cons.prems r show ?thesis by auto
  qed
qed

lemma std_sort_key:
  fixes key :: "'a \<Rightarrow> 'k::linorder"
  assumes "\<forall>x\<in>set xs. \<forall>y\<in>set xs. lt x y = Inr (key x < key y)"
  shows "\<exists>r. std_sort lt xs = Inr r \<and> mset r = mset xs \<and> sorted (map key r)"
  using assms
proof (induction xs)
  case Nil
  show ?case by simp
next
  case (Cons x xs)
  then obtain r where r: "std_sort lt xs = Inr r" "mset r = mset xs" "sorted (map key r)"
    by auto
  from r(2) have "set r = set xs" by (metis set_mset_mset)
  with Cons.prems have "\<forall>y\<in>set r. lt x y = Inr (key x < key y)" by simp
  from insert_sorted_key[of r lt x key, OF this r(3)] r show ?case by auto
qed

text \<open>
  The order does not hang on the sorting algorithm: on valid events, every arrangement
  in which no row is \<open>listAll_comp\<close>-less than a row before it, which is all that
  \<^verbatim>\<open>std::sort\<close> promises, is in the order \<open>listed_before\<close>.
\<close>

lemma sorted_arrangement_listed_in_order:
  assumes v: "all_valid out" and s: "sorted_wrt (\<lambda>a b. listAll_comp b a \<noteq> Inr True) out"
  shows "sorted_wrt listed_before out"
proof -
  from v have v': "\<And>e. e \<in> set out \<Longrightarrow> valid_date_spec (date e) \<and> isValidTime (time e)"
    by (simp add: all_valid_def list_all_iff)
  have "\<And>a b. a \<in> set out \<Longrightarrow> b \<in> set out \<Longrightarrow> listAll_comp b a \<noteq> Inr True
          \<Longrightarrow> listed_before a b"
  proof -
    fix a b assume a: "a \<in> set out" and b: "b \<in> set out" and n: "listAll_comp b a \<noteq> Inr True"
    from listAll_comp_valid[of b a] v'[OF a] v'[OF b] n have "\<not> sort_key b < sort_key a" by simp
    then have "sort_key a \<le> sort_key b" by simp
    with sort_key_le v'[OF a] v'[OF b] show "listed_before a b" by blast
  qed
  with s show ?thesis by (rule sorted_wrt_mono_rel[rotated])
qed

lemma three_days_valid: "all_valid (events three_days)"
  unfolding three_days_def by code_simp

lemma three_days_listAll: "listAll three_days = Inr three_days_listed"
  unfolding three_days_def three_days_listed_def by code_simp

text \<open>
  C9. For a store whose events all have valid dates and times, \<open>listAll\<close> returns, and
  what it shows is the live events, each as often as it is in the store, in an order
  where of two rows the earlier has the smaller year-month-day text (the date
  rearranged, compared as text), or the same date and a start that is not later.
\<close>

theorem listAll_sorted_by_ymd_then_time:
  assumes "all_valid (events s)"
  shows "\<exists>out. listAll s = Inr out \<and> mset out = mset (events s)
               \<and> sorted_wrt listed_before out"
proof (cases "events s = []")
  case True
  then show ?thesis by (simp add: listAll_def)
next
  case False
  from assms
  have v: "\<And>e. e \<in> set (events s) \<Longrightarrow> valid_date_spec (date e) \<and> isValidTime (time e)"
    by (simp add: all_valid_def list_all_iff)
  then have "\<forall>x\<in>set (events s). \<forall>y\<in>set (events s).
               listAll_comp x y = Inr (sort_key x < sort_key y)"
    using listAll_comp_valid by blast
  from std_sort_key[OF this] obtain out where out: "std_sort listAll_comp (events s) = Inr out"
    "mset out = mset (events s)" "sorted (map sort_key out)" by blast
  from out(2) have "set out = set (events s)" by (metis set_mset_mset)
  with v have v': "\<And>e. e \<in> set out \<Longrightarrow> valid_date_spec (date e)" by simp
  from out(3) have "sorted_wrt (\<lambda>a b. sort_key a \<le> sort_key b) out"
    by (simp add: sorted_map)
  then have "sorted_wrt listed_before out"
    by (rule sorted_wrt_mono_rel[rotated]) (simp add: sort_key_le v')
  with out False show ?thesis by (simp add: listAll_def)
qed

text \<open>
  Three events on 01-02-2030 and 31-01-2030: the listing puts 31 January first, though
  as stored texts \<^verbatim>\<open>01-02-2030\<close> is below \<^verbatim>\<open>31-01-2030\<close>.
\<close>

theorem listAll_sorted_by_ymd_then_time_witness:
  "all_valid (events three_days) \<and> listAll three_days = Inr three_days_listed
   \<and> sorted_wrt listed_before three_days_listed \<and> ''01-02-2030'' < ''31-01-2030''"
proof -
  from listAll_sorted_by_ymd_then_time[OF three_days_valid] three_days_listAll
  have "sorted_wrt listed_before three_days_listed" by auto
  moreover have "''01-02-2030'' < ''31-01-2030''" by code_simp
  ultimately show ?thesis using three_days_valid three_days_listAll by simp
qed

end
